theory Spec2Isabelle
  imports Main "HOL-Library.Word" "HOL-Library.Sublist"
begin

unbundle bit_operations_syntax

section \<open>Event kinds, categories and the event envelope (include/Event.h)\<close>

text \<open>
  \<^verbatim>\<open>enum class EventType : uint16_t\<close>. Only the enumerators and their
  pinned values matter: built-in kinds occupy 0-999, custom kinds start at 1000.
\<close>

datatype EventType =
    ET_NONE
  | KEY_PRESSED | KEY_RELEASED | KEY_TYPED
  | MOUSE_BUTTON_PRESSED | MOUSE_BUTTON_RELEASED | MOUSE_MOVED | MOUSE_SCROLLED
  | MOUSE_ENTERED | MOUSE_EXITED
  | WINDOW_RESIZE | WINDOW_MINIMIZED | WINDOW_MAXIMIZED | WINDOW_RESTORED | WINDOW_MOVED
  | WINDOW_FOCUSED | WINDOW_CLOSE | FRAMEBUFFER_RESIZE | CONTENT_SCALE_CHANGED | FILE_DROP
  | CONTROLLER_CONNECTED | CONTROLLER_DISCONNECTED
  | APP_UPDATE | APP_RENDER
  | CUSTOM_START

fun EventType_value :: "EventType \<Rightarrow> 16 word" where
  "EventType_value ET_NONE = 0"
| "EventType_value KEY_PRESSED = 100"
| "EventType_value KEY_RELEASED = 101"
| "EventType_value KEY_TYPED = 102"
| "EventType_value MOUSE_BUTTON_PRESSED = 200"
| "EventType_value MOUSE_BUTTON_RELEASED = 201"
| "EventType_value MOUSE_MOVED = 202"
| "EventType_value MOUSE_SCROLLED = 203"
| "EventType_value MOUSE_ENTERED = 204"
| "EventType_value MOUSE_EXITED = 205"
| "EventType_value WINDOW_RESIZE = 300"
| "EventType_value WINDOW_MINIMIZED = 301"
| "EventType_value WINDOW_MAXIMIZED = 302"
| "EventType_value WINDOW_RESTORED = 303"
| "EventType_value WINDOW_MOVED = 304"
| "EventType_value WINDOW_FOCUSED = 305"
| "EventType_value WINDOW_CLOSE = 306"
| "EventType_value FRAMEBUFFER_RESIZE = 307"
| "EventType_value CONTENT_SCALE_CHANGED = 308"
| "EventType_value FILE_DROP = 309"
| "EventType_value CONTROLLER_CONNECTED = 400"
| "EventType_value CONTROLLER_DISCONNECTED = 401"
| "EventType_value APP_UPDATE = 500"
| "EventType_value APP_RENDER = 501"
| "EventType_value CUSTOM_START = 1000"

text \<open>\<^verbatim>\<open>enum class EventCategory : uint8_t\<close>: one flag bit per category.\<close>

datatype EventCategory =
  NONE | INPUT | KEYBOARD | MOUSE | CONTROLLER | WINDOW | APPLICATION | CUSTOM

fun EventCategory_value :: "EventCategory \<Rightarrow> 8 word" where
  "EventCategory_value NONE = 0"
| "EventCategory_value INPUT = push_bit 0 1"
| "EventCategory_value KEYBOARD = push_bit 1 1"
| "EventCategory_value MOUSE = push_bit 2 1"
| "EventCategory_value CONTROLLER = push_bit 3 1"
| "EventCategory_value WINDOW = push_bit 4 1"
| "EventCategory_value APPLICATION = push_bit 5 1"
| "EventCategory_value CUSTOM = push_bit 6 1"

text \<open>
  \<^verbatim>\<open>class EventCategoryWrapper\<close>: a \<^verbatim>\<open>uint8_t m_Value\<close> with
  the operators \<^verbatim>\<open>|\<close>, \<^verbatim>\<open>&\<close>, \<^verbatim>\<open>~\<close>,
  \<^verbatim>\<open>==\<close>. Each operator computes in \<^verbatim>\<open>int\<close> after integer
  promotion and casts the result back to \<^verbatim>\<open>uint8_t\<close>, which on an 8-bit word
  is the bitwise operation itself.
\<close>

datatype EventCategoryWrapper = Wrapper (m_Value: "8 word")

definition Wrapper_default :: EventCategoryWrapper where
  "Wrapper_default = Wrapper 0"

definition Wrapper_of :: "EventCategory \<Rightarrow> EventCategoryWrapper" where
  "Wrapper_of category = Wrapper (EventCategory_value category)"

definition Wrapper_or :: "EventCategoryWrapper \<Rightarrow> EventCategoryWrapper \<Rightarrow> EventCategoryWrapper" where
  "Wrapper_or a other = Wrapper (m_Value a OR m_Value other)"

definition Wrapper_and :: "EventCategoryWrapper \<Rightarrow> EventCategoryWrapper \<Rightarrow> EventCategoryWrapper" where
  "Wrapper_and a other = Wrapper (m_Value a AND m_Value other)"

definition Wrapper_not :: "EventCategoryWrapper \<Rightarrow> EventCategoryWrapper" where
  "Wrapper_not a = Wrapper (NOT (m_Value a))"

text \<open>The free operators on two enumerators wrap both sides first.\<close>

definition EventCategory_or :: "EventCategory \<Rightarrow> EventCategory \<Rightarrow> EventCategoryWrapper" where
  "EventCategory_or a b = Wrapper_or (Wrapper_of a) (Wrapper_of b)"

definition EventCategory_and :: "EventCategory \<Rightarrow> EventCategory \<Rightarrow> EventCategoryWrapper" where
  "EventCategory_and a b = Wrapper_and (Wrapper_of a) (Wrapper_of b)"

text \<open>
  \<^verbatim>\<open>class Event\<close>: the kind id and the categories are fixed by the constructor,
  the consumed flag starts false. The constructor's parameter is a
  \<^verbatim>\<open>uint16_t\<close>; a caller that holds a \<^verbatim>\<open>uint32_t\<close> id (every
  \<^verbatim>\<open>EventTypeId<T>::Get()\<close>) converts it implicitly at the call, which keeps the
  low 16 bits (\<^verbatim>\<open>Event_from_id\<close>).
\<close>

record Event =
  m_TypeId :: "16 word"
  m_Categories :: EventCategoryWrapper
  m_Consumed :: bool

definition Event_ctor :: "16 word \<Rightarrow> EventCategoryWrapper \<Rightarrow> Event" where
  "Event_ctor typeId categories =
     \<lparr>m_TypeId = typeId, m_Categories = categories, m_Consumed = False\<rparr>"

definition Event_from_id :: "32 word \<Rightarrow> EventCategoryWrapper \<Rightarrow> Event" where
  "Event_from_id id32 categories = Event_ctor (ucast id32) categories"

definition Consume :: "Event \<Rightarrow> Event" where
  "Consume e = e\<lparr>m_Consumed := True\<rparr>"

definition IsConsumed :: "Event \<Rightarrow> bool" where
  "IsConsumed e = m_Consumed e"

definition GetTypeId :: "Event \<Rightarrow> 16 word" where
  "GetTypeId e = m_TypeId e"

definition GetCategory :: "Event \<Rightarrow> EventCategoryWrapper" where
  "GetCategory e = m_Categories e"

definition IsInCategory :: "Event \<Rightarrow> EventCategory \<Rightarrow> bool" where
  "IsInCategory e category = (Wrapper_and (m_Categories e) (Wrapper_of category) \<noteq> Wrapper_of NONE)"

section \<open>Kind ids (include/Event.h: GetNextCustomEventId, EventTypeId)\<close>

text \<open>
  The event classes that have an explicit specialisation of
  \<^verbatim>\<open>EventTypeId\<close>, and the enumerator each specialisation returns. Every other
  class \<^verbatim>\<open>T\<close> (a user-defined event) goes through the primary template; such
  classes are numbered, \<^verbatim>\<open>Custom n\<close>.
\<close>

datatype builtin_event =
    KeyPressedEvent | KeyReleasedEvent | KeyTypedEvent
  | MouseButtonPressedEvent | MouseButtonReleasedEvent | MouseMovedEvent | MouseScrolledEvent
  | MouseEnteredEvent | MouseExitedEvent
  | WindowResizeEvent | WindowMinimizedEvent | WindowMaximizedEvent | WindowRestoredEvent
  | WindowMovedEvent | WindowFocusedEvent | WindowCloseEvent | FramebufferResizeEvent
  | ContentScaleChangedEvent | FileDropEvent
  | ControllerConnectedEvent | ControllerDisconnectedEvent
  | UpdateEvent | RenderEvent

fun builtin_type :: "builtin_event \<Rightarrow> EventType" where
  "builtin_type KeyPressedEvent = KEY_PRESSED"
| "builtin_type KeyReleasedEvent = KEY_RELEASED"
| "builtin_type KeyTypedEvent = KEY_TYPED"
| "builtin_type MouseButtonPressedEvent = MOUSE_BUTTON_PRESSED"
| "builtin_type MouseButtonReleasedEvent = MOUSE_BUTTON_RELEASED"
| "builtin_type MouseMovedEvent = MOUSE_MOVED"
| "builtin_type MouseScrolledEvent = MOUSE_SCROLLED"
| "builtin_type MouseEnteredEvent = MOUSE_ENTERED"
| "builtin_type MouseExitedEvent = MOUSE_EXITED"
| "builtin_type WindowResizeEvent = WINDOW_RESIZE"
| "builtin_type WindowMinimizedEvent = WINDOW_MINIMIZED"
| "builtin_type WindowMaximizedEvent = WINDOW_MAXIMIZED"
| "builtin_type WindowRestoredEvent = WINDOW_RESTORED"
| "builtin_type WindowMovedEvent = WINDOW_MOVED"
| "builtin_type WindowFocusedEvent = WINDOW_FOCUSED"
| "builtin_type WindowCloseEvent = WINDOW_CLOSE"
| "builtin_type FramebufferResizeEvent = FRAMEBUFFER_RESIZE"
| "builtin_type ContentScaleChangedEvent = CONTENT_SCALE_CHANGED"
| "builtin_type FileDropEvent = FILE_DROP"
| "builtin_type ControllerConnectedEvent = CONTROLLER_CONNECTED"
| "builtin_type ControllerDisconnectedEvent = CONTROLLER_DISCONNECTED"
| "builtin_type UpdateEvent = APP_UPDATE"
| "builtin_type RenderEvent = APP_RENDER"

datatype kind = BuiltIn builtin_event | Custom nat

text \<open>
  The function-local statics: \<^verbatim>\<open>s_NextId\<close> of
  \<^verbatim>\<open>GetNextCustomEventId\<close> (a \<^verbatim>\<open>uint32_t\<close>, first value
  \<^verbatim>\<open>CUSTOM_START\<close>) and one \<^verbatim>\<open>s_Id\<close> per instantiation of the
  primary template, initialised by the first call of its \<^verbatim>\<open>Get\<close>
  (\<^verbatim>\<open>None\<close> until then).
\<close>

record id_statics =
  s_NextId :: "32 word"
  s_Id :: "nat \<rightharpoonup> 32 word"

definition statics_init :: id_statics where
  "statics_init = \<lparr>s_NextId = ucast (EventType_value CUSTOM_START), s_Id = Map.empty\<rparr>"

definition GetNextCustomEventId :: "id_statics \<Rightarrow> 32 word \<times> id_statics" where
  "GetNextCustomEventId st = (s_NextId st, st\<lparr>s_NextId := s_NextId st + 1\<rparr>)"

fun EventTypeId_Get :: "kind \<Rightarrow> id_statics \<Rightarrow> 32 word \<times> id_statics" where
  "EventTypeId_Get (BuiltIn b) st = (ucast (EventType_value (builtin_type b)), st)"
| "EventTypeId_Get (Custom T) st =
     (case s_Id st T of
        Some i \<Rightarrow> (i, st)
      | None \<Rightarrow>
          (let (i, st') = GetNextCustomEventId st
           in (i, st'\<lparr>s_Id := (s_Id st')(T \<mapsto> i)\<rparr>)))"

text \<open>A program run: the kinds whose id is requested, in order, and the ids returned.\<close>

fun EventTypeId_Get_all :: "kind list \<Rightarrow> id_statics \<Rightarrow> 32 word list \<times> id_statics" where
  "EventTypeId_Get_all [] st = ([], st)"
| "EventTypeId_Get_all (k # ks) st =
     (let (i, st1) = EventTypeId_Get k st;
          (ids, st2) = EventTypeId_Get_all ks st1
      in (i # ids, st2))"

text \<open>
  Vocabulary for the statements: the custom kinds of a run in the order of their first
  request, and the position of a kind in such a list.
\<close>

fun note_use :: "nat list \<Rightarrow> kind \<Rightarrow> nat list" where
  "note_use h (BuiltIn b) = h"
| "note_use h (Custom T) = (if T \<in> set h then h else h @ [T])"

definition first_uses :: "kind list \<Rightarrow> nat list" where
  "first_uses ks = foldl note_use [] ks"

definition position :: "nat \<Rightarrow> nat list \<Rightarrow> nat" where
  "position T h = length (takeWhile (\<lambda>x. x \<noteq> T) h)"

text \<open>
  Vocabulary for the proofs: the id a kind has once the custom kinds \<^verbatim>\<open>h\<close> were
  first requested in that order, and the statics that such a history leaves behind.
\<close>

definition kid :: "nat list \<Rightarrow> kind \<Rightarrow> 32 word" where
  "kid h k = (case k of BuiltIn b \<Rightarrow> ucast (EventType_value (builtin_type b))
                | Custom T \<Rightarrow> word_of_nat (1000 + position T h))"

definition repr :: "nat list \<Rightarrow> id_statics \<Rightarrow> bool" where
  "repr h st \<longleftrightarrow> distinct h \<and> s_NextId st = word_of_nat (1000 + length h)
     \<and> (\<forall>T. s_Id st T = (if T \<in> set h then Some (word_of_nat (1000 + position T h)) else None))"

text \<open>A small run: two custom kinds and a built-in one, the first custom kind twice.\<close>

definition ks0 :: "kind list" where
  "ks0 = [Custom 7, BuiltIn KeyPressedEvent, Custom 3, Custom 7]"

section \<open>Layers and the layer stack (include/Layer.h, src/layers/LayerStack.cpp)\<close>

text \<open>
  A \<^verbatim>\<open>Layer *\<close> (and later an \<^verbatim>\<open>EventListener *\<close>) is null or the
  address of an object. The stack holds non-owning pointers; the \<^verbatim>\<open>Layer\<close>
  objects themselves live in a heap indexed by address.
\<close>

datatype ptr = nullptr | Ptr nat

record Layer =
  m_Name :: string
  m_Enabled :: bool

definition Layer_ctor :: "string \<Rightarrow> Layer" where
  "Layer_ctor name = \<lparr>m_Name = name, m_Enabled = True\<rparr>"

definition GetName :: "Layer \<Rightarrow> string" where
  "GetName l = m_Name l"

definition IsEnabled :: "Layer \<Rightarrow> bool" where
  "IsEnabled l = m_Enabled l"

definition SetEnabled :: "bool \<Rightarrow> Layer \<Rightarrow> Layer" where
  "SetEnabled enabled l = l\<lparr>m_Enabled := enabled\<rparr>"

type_synonym layer_heap = "nat \<Rightarrow> Layer"

text \<open>
  \<^verbatim>\<open>class LayerStack\<close>: the vector of layer pointers and the
  \<^verbatim>\<open>uint32_t\<close> boundary between layers and overlays. (Its third member, the
  \<^verbatim>\<open>EventListener m_Listener\<close> whose callback forwards to
  \<^verbatim>\<open>OnEvent\<close>, plays no part in the operations below.)
\<close>

record LayerStack =
  m_Layers :: "ptr list"
  m_LayerInsertIndex :: "32 word"

definition LayerStack_ctor :: LayerStack where
  "LayerStack_ctor = \<lparr>m_Layers = [], m_LayerInsertIndex = 0\<rparr>"

text \<open>
  What a run of the program lets an observer see, in order: the lines handed to the
  logger and the virtual hooks the stack invokes on layers. Every state of the model that
  can log extends the record \<^verbatim>\<open>observer\<close>.
\<close>

datatype log_level = AE_TRACE | AE_INFO | AE_WARNING

datatype hook = OnAttach | OnDetach | OnEvent | OnUpdate | OnRender | OnImGuiRender

datatype obs = Log log_level string | Call hook nat

text \<open>
  The virtual hooks of \<^verbatim>\<open>Layer\<close> are overridden by the user, so they are
  parameters: each is given the address of the layer it runs on and may read the stack
  as it is at the time of the call, and may change the layer objects (names, enabled
  flags of any layer) and, for \<^verbatim>\<open>OnEvent\<close>, the event. A hook does not
  push to, pop from or move a stack. \<^verbatim>\<open>'t\<close> is the type of
  \<^verbatim>\<open>deltaTime\<close>, which the stack only passes on.
\<close>

record 't hooks =
  Layer_OnAttach :: "nat \<Rightarrow> LayerStack \<Rightarrow> layer_heap \<Rightarrow> layer_heap"
  Layer_OnDetach :: "nat \<Rightarrow> LayerStack \<Rightarrow> layer_heap \<Rightarrow> layer_heap"
  Layer_OnEvent :: "nat \<Rightarrow> LayerStack \<Rightarrow> Event \<Rightarrow> layer_heap \<Rightarrow> Event \<times> layer_heap"
  Layer_OnUpdate :: "nat \<Rightarrow> LayerStack \<Rightarrow> 't \<Rightarrow> layer_heap \<Rightarrow> layer_heap"
  Layer_OnRender :: "nat \<Rightarrow> LayerStack \<Rightarrow> layer_heap \<Rightarrow> layer_heap"
  Layer_OnImGuiRender :: "nat \<Rightarrow> LayerStack \<Rightarrow> layer_heap \<Rightarrow> layer_heap"

record observer =
  observed :: "obs list"

record world = observer +
  stack :: LayerStack
  layers :: layer_heap

text \<open>
  Modelled from the spec: the logging facility (\<^verbatim>\<open>Log.h\<close>, the macro
  \<^verbatim>\<open>AE_LOG\<close>) is not part of the sources. The spec says it is "called only for
  diagnostics on misuse", "must be safely callable as a no-op" and "never affects control
  flow": a call appends the formatted line to what has been observed and does nothing else.
\<close>

definition AE_LOG :: "log_level \<Rightarrow> string \<Rightarrow> 'a observer_scheme \<Rightarrow> 'a observer_scheme" where
  "AE_LOG level line w = w\<lparr>observed := observed w @ [Log level line]\<rparr>"

definition quoted :: "string \<Rightarrow> string" where
  "quoted name = [CHR 0x27] @ name @ [CHR 0x27]"

definition call_OnAttach :: "'t hooks \<Rightarrow> nat \<Rightarrow> world \<Rightarrow> world" where
  "call_OnAttach hk a w =
     w\<lparr>layers := Layer_OnAttach hk a (stack w) (layers w),
       observed := observed w @ [Call OnAttach a]\<rparr>"

definition call_OnDetach :: "'t hooks \<Rightarrow> nat \<Rightarrow> world \<Rightarrow> world" where
  "call_OnDetach hk a w =
     w\<lparr>layers := Layer_OnDetach hk a (stack w) (layers w),
       observed := observed w @ [Call OnDetach a]\<rparr>"

definition call_OnEvent :: "'t hooks \<Rightarrow> nat \<Rightarrow> Event \<times> world \<Rightarrow> Event \<times> world" where
  "call_OnEvent hk a ew =
     (let (event, w) = ew;
          (event', h') = Layer_OnEvent hk a (stack w) event (layers w)
      in (event', w\<lparr>layers := h', observed := observed w @ [Call OnEvent a]\<rparr>))"

definition call_OnUpdate :: "'t hooks \<Rightarrow> 't \<Rightarrow> nat \<Rightarrow> world \<Rightarrow> world" where
  "call_OnUpdate hk deltaTime a w =
     w\<lparr>layers := Layer_OnUpdate hk a (stack w) deltaTime (layers w),
       observed := observed w @ [Call OnUpdate a]\<rparr>"

definition call_OnRender :: "'t hooks \<Rightarrow> nat \<Rightarrow> world \<Rightarrow> world" where
  "call_OnRender hk a w =
     w\<lparr>layers := Layer_OnRender hk a (stack w) (layers w),
       observed := observed w @ [Call OnRender a]\<rparr>"

definition call_OnImGuiRender :: "'t hooks \<Rightarrow> nat \<Rightarrow> world \<Rightarrow> world" where
  "call_OnImGuiRender hk a w =
     w\<lparr>layers := Layer_OnImGuiRender hk a (stack w) (layers w),
       observed := observed w @ [Call OnImGuiRender a]\<rparr>"

text \<open>
  The standard library, on a vector as a list and iterators as indices.
  \<^verbatim>\<open>std::find(first, last, v)\<close> walks from \<^verbatim>\<open>first\<close> and returns the
  first position before \<^verbatim>\<open>last\<close> that holds \<^verbatim>\<open>v\<close>, or
  \<^verbatim>\<open>last\<close> itself. Reading a position
  at or beyond the end of the vector is undefined behaviour in C++ and an unspecified value
  here (\<^verbatim>\<open>xs ! i\<close>); the stack's invariant keeps every range inside the vector.
  \<^verbatim>\<open>insert(begin() + i, x)\<close> and \<^verbatim>\<open>erase(begin() + i)\<close> shift the tail.
\<close>

function std_find :: "'a list \<Rightarrow> nat \<Rightarrow> nat \<Rightarrow> 'a \<Rightarrow> nat" where
  "std_find xs first_it last_it v =
     (if first_it < last_it
      then (if xs ! first_it = v then first_it else std_find xs (Suc first_it) last_it v)
      else last_it)"
  by pat_completeness auto
termination
  by (relation "measure (\<lambda>(xs, first_it, last_it, v). last_it - first_it)") auto

declare std_find.simps [simp del]

definition vector_insert :: "nat \<Rightarrow> 'a \<Rightarrow> 'a list \<Rightarrow> 'a list" where
  "vector_insert i x xs = take i xs @ x # drop i xs"

definition vector_erase :: "nat \<Rightarrow> 'a list \<Rightarrow> 'a list" where
  "vector_erase i xs = take i xs @ drop (Suc i) xs"

text \<open>
  The four structural operations. \<^verbatim>\<open>AE_DEBUG\<close> says whether the build defines
  the macro of that name (a validated build).
\<close>

definition PushLayer :: "bool \<Rightarrow> 't hooks \<Rightarrow> ptr \<Rightarrow> world \<Rightarrow> world" where
  "PushLayer AE_DEBUG hk pLayer w =
     (case pLayer of
        nullptr \<Rightarrow> AE_LOG AE_WARNING ''Tried to push null layer to LayerStack'' w
      | Ptr a \<Rightarrow>
          if AE_DEBUG \<and> std_find (m_Layers (stack w)) 0 (length (m_Layers (stack w))) pLayer
                          \<noteq> length (m_Layers (stack w))
          then AE_LOG AE_WARNING
                 (''Tried to push layer '' @ quoted (GetName (layers w a))
                    @ '' that is already in the stack'') w
          else
            let w1 = w\<lparr>stack := (stack w)\<lparr>m_Layers :=
                       vector_insert (unat (m_LayerInsertIndex (stack w))) pLayer
                         (m_Layers (stack w))\<rparr>\<rparr>;
                w2 = w1\<lparr>stack := (stack w1)\<lparr>m_LayerInsertIndex :=
                       m_LayerInsertIndex (stack w1) + 1\<rparr>\<rparr>;
                w3 = call_OnAttach hk a w2
            in AE_LOG AE_TRACE (''Pushed layer: '' @ GetName (layers w3 a)) w3)"

definition PopLayer :: "'t hooks \<Rightarrow> ptr \<Rightarrow> world \<Rightarrow> world" where
  "PopLayer hk pLayer w =
     (case pLayer of
        nullptr \<Rightarrow> AE_LOG AE_WARNING ''Tried to pop null layer from LayerStack'' w
      | Ptr a \<Rightarrow>
          let it = std_find (m_Layers (stack w)) 0 (unat (m_LayerInsertIndex (stack w))) pLayer
          in if it \<noteq> unat (m_LayerInsertIndex (stack w))
             then
               let w1 = call_OnDetach hk a w;
                   w2 = w1\<lparr>stack := (stack w1)\<lparr>m_Layers :=
                          vector_erase it (m_Layers (stack w1))\<rparr>\<rparr>;
                   w3 = w2\<lparr>stack := (stack w2)\<lparr>m_LayerInsertIndex :=
                          m_LayerInsertIndex (stack w2) - 1\<rparr>\<rparr>
               in AE_LOG AE_TRACE (''Popped layer: '' @ GetName (layers w3 a)) w3
             else AE_LOG AE_WARNING (''Layer not found in stack: '' @ GetName (layers w a)) w)"

definition PushOverlay :: "bool \<Rightarrow> 't hooks \<Rightarrow> ptr \<Rightarrow> world \<Rightarrow> world" where
  "PushOverlay AE_DEBUG hk pOverlay w =
     (case pOverlay of
        nullptr \<Rightarrow> AE_LOG AE_WARNING ''Tried to push null overlay to LayerStack'' w
      | Ptr a \<Rightarrow>
          if AE_DEBUG \<and> std_find (m_Layers (stack w)) 0 (length (m_Layers (stack w))) pOverlay
                          \<noteq> length (m_Layers (stack w))
          then AE_LOG AE_WARNING
                 (''Tried to push overlay '' @ quoted (GetName (layers w a))
                    @ '' that is already in the stack'') w
          else
            let w1 = w\<lparr>stack := (stack w)\<lparr>m_Layers := m_Layers (stack w) @ [pOverlay]\<rparr>\<rparr>;
                w2 = call_OnAttach hk a w1
            in AE_LOG AE_TRACE (''Pushed overlay: '' @ GetName (layers w2 a)) w2)"

definition PopOverlay :: "'t hooks \<Rightarrow> ptr \<Rightarrow> world \<Rightarrow> world" where
  "PopOverlay hk pOverlay w =
     (case pOverlay of
        nullptr \<Rightarrow> AE_LOG AE_WARNING ''Tried to pop null overlay from LayerStack'' w
      | Ptr a \<Rightarrow>
          let it = std_find (m_Layers (stack w)) (unat (m_LayerInsertIndex (stack w)))
                     (length (m_Layers (stack w))) pOverlay
          in if it \<noteq> length (m_Layers (stack w))
             then
               let w1 = call_OnDetach hk a w;
                   w2 = w1\<lparr>stack := (stack w1)\<lparr>m_Layers :=
                          vector_erase it (m_Layers (stack w1))\<rparr>\<rparr>
               in AE_LOG AE_TRACE (''Popped overlay: '' @ GetName (layers w2 a)) w2
             else AE_LOG AE_WARNING (''Overlay not found in stack: '' @ GetName (layers w a)) w)"

text \<open>
  \<^verbatim>\<open>LayerStack::OnEvent\<close>: the loop over
  \<^verbatim>\<open>std::ranges::reverse_view(m_Layers)\<close>. \<^verbatim>\<open>OnEvent_loop\<close> is the loop
  body over the entries still to come, in visiting order.
\<close>

fun OnEvent_loop :: "'t hooks \<Rightarrow> ptr list \<Rightarrow> Event \<times> world \<Rightarrow> Event \<times> world" where
  "OnEvent_loop hk [] (event, w) = (event, w)"
| "OnEvent_loop hk (pLayer # rest) (event, w) =
     (if IsConsumed event then (event, w)
      else OnEvent_loop hk rest
        (case pLayer of
           nullptr \<Rightarrow> (event, w)
         | Ptr a \<Rightarrow>
             if IsEnabled (layers w a) then call_OnEvent hk a (event, w) else (event, w)))"

definition LayerStack_OnEvent :: "'t hooks \<Rightarrow> Event \<Rightarrow> world \<Rightarrow> Event \<times> world" where
  "LayerStack_OnEvent hk event w = OnEvent_loop hk (rev (m_Layers (stack w))) (event, w)"

text \<open>
  \<^verbatim>\<open>OnUpdate\<close>, \<^verbatim>\<open>OnRender\<close> and \<^verbatim>\<open>OnImGuiRender\<close> are the same
  loop over \<^verbatim>\<open>m_Layers\<close> but for the hook they call.
\<close>

fun for_each_layer :: "(nat \<Rightarrow> world \<Rightarrow> world) \<Rightarrow> ptr list \<Rightarrow> world \<Rightarrow> world" where
  "for_each_layer f [] w = w"
| "for_each_layer f (pLayer # rest) w =
     for_each_layer f rest
       (case pLayer of
          nullptr \<Rightarrow> w
        | Ptr a \<Rightarrow> if IsEnabled (layers w a) then f a w else w)"

definition LayerStack_OnUpdate :: "'t hooks \<Rightarrow> 't \<Rightarrow> world \<Rightarrow> world" where
  "LayerStack_OnUpdate hk deltaTime w =
     for_each_layer (call_OnUpdate hk deltaTime) (m_Layers (stack w)) w"

definition LayerStack_OnRender :: "'t hooks \<Rightarrow> world \<Rightarrow> world" where
  "LayerStack_OnRender hk w = for_each_layer (call_OnRender hk) (m_Layers (stack w)) w"

definition LayerStack_OnImGuiRender :: "'t hooks \<Rightarrow> world \<Rightarrow> world" where
  "LayerStack_OnImGuiRender hk w = for_each_layer (call_OnImGuiRender hk) (m_Layers (stack w)) w"

text \<open>
  \<^verbatim>\<open>LayerStack::~LayerStack\<close> calls \<^verbatim>\<open>OnDetach\<close> on every non-null
  entry, enabled or not, in stored order.
\<close>

fun LayerStack_dtor_loop :: "'t hooks \<Rightarrow> ptr list \<Rightarrow> world \<Rightarrow> world" where
  "LayerStack_dtor_loop hk [] w = w"
| "LayerStack_dtor_loop hk (pLayer # rest) w =
     LayerStack_dtor_loop hk rest
       (case pLayer of nullptr \<Rightarrow> w | Ptr a \<Rightarrow> call_OnDetach hk a w)"

definition LayerStack_dtor :: "'t hooks \<Rightarrow> world \<Rightarrow> world" where
  "LayerStack_dtor hk w = LayerStack_dtor_loop hk (m_Layers (stack w)) w"

text \<open>
  The defaulted move operations, \<^verbatim>\<open>LayerStack(LayerStack &&) = default\<close> and
  \<^verbatim>\<open>LayerStack &operator=(LayerStack &&) = default\<close>, move member by member: the
  target takes over the vector of the source, which is left empty, and the
  \<^verbatim>\<open>uint32_t\<close> boundary is copied, so that the source keeps the value it had. Each
  returns the target and the source as they are after the move. (The third member,
  \<^verbatim>\<open>m_Listener\<close>, is moved by the move operations of
  \<^verbatim>\<open>EventListener\<close>, which are part of the listener registry below.)
\<close>

definition LayerStack_move_ctor :: "LayerStack \<Rightarrow> LayerStack \<times> LayerStack" where
  "LayerStack_move_ctor other =
     (\<lparr>m_Layers = m_Layers other, m_LayerInsertIndex = m_LayerInsertIndex other\<rparr>,
      other\<lparr>m_Layers := []\<rparr>)"

definition LayerStack_move_assign :: "LayerStack \<Rightarrow> LayerStack \<Rightarrow> LayerStack \<times> LayerStack" where
  "LayerStack_move_assign this other =
     (this\<lparr>m_Layers := m_Layers other, m_LayerInsertIndex := m_LayerInsertIndex other\<rparr>,
      other\<lparr>m_Layers := []\<rparr>)"

text \<open>
  Programs that use stacks. A program has any number of \<^verbatim>\<open>LayerStack\<close> objects,
  by address, all freshly constructed at the start, and the layer objects; it is any sequence
  of calls of the public operations of a stack, of moves from one stack to another, and of
  \<^verbatim>\<open>Layer::SetEnabled\<close> on some layer. An operation of the stack at address
  \<^verbatim>\<open>n\<close> runs in the world made of that stack, the layer objects and what has been
  observed so far. A move construction makes the stack at the target address, whatever
  was there before. A move with the same address on both sides leaves the contents of the
  vector unspecified in C++; here the source's side of the move is the one that stays.
  The destructor makes its calls and ends the life of the stack; the members stay as they
  were, and nothing in C++ may read them afterwards.
\<close>

record program = observer +
  stacks :: "nat \<Rightarrow> LayerStack"
  layer_objects :: layer_heap

definition program_init :: "layer_heap \<Rightarrow> program" where
  "program_init h = \<lparr>observed = [], stacks = (\<lambda>n. LayerStack_ctor), layer_objects = h\<rparr>"

definition world_of :: "program \<Rightarrow> nat \<Rightarrow> world" where
  "world_of P n = \<lparr>observed = observed P, stack = stacks P n, layers = layer_objects P\<rparr>"

definition on_stack :: "nat \<Rightarrow> (world \<Rightarrow> world) \<Rightarrow> program \<Rightarrow> program" where
  "on_stack n f P =
     (let w = f (world_of P n)
      in P\<lparr>observed := observed w, stacks := (stacks P)(n := stack w),
           layer_objects := layers w\<rparr>)"

datatype 't stack_op =
    Do_PushLayer nat ptr | Do_PopLayer nat ptr | Do_PushOverlay nat ptr | Do_PopOverlay nat ptr
  | Do_OnEvent nat Event | Do_OnUpdate nat 't | Do_OnRender nat | Do_OnImGuiRender nat
  | Do_stack_move_construct nat nat | Do_stack_move_assign nat nat | Do_stack_destroy nat
  | Do_SetEnabled nat bool

fun apply_op :: "bool \<Rightarrow> 't hooks \<Rightarrow> program \<Rightarrow> 't stack_op \<Rightarrow> program" where
  "apply_op AE_DEBUG hk P (Do_PushLayer n p) = on_stack n (PushLayer AE_DEBUG hk p) P"
| "apply_op AE_DEBUG hk P (Do_PopLayer n p) = on_stack n (PopLayer hk p) P"
| "apply_op AE_DEBUG hk P (Do_PushOverlay n p) = on_stack n (PushOverlay AE_DEBUG hk p) P"
| "apply_op AE_DEBUG hk P (Do_PopOverlay n p) = on_stack n (PopOverlay hk p) P"
| "apply_op AE_DEBUG hk P (Do_OnEvent n event) =
     on_stack n (\<lambda>w. snd (LayerStack_OnEvent hk event w)) P"
| "apply_op AE_DEBUG hk P (Do_OnUpdate n deltaTime) =
     on_stack n (LayerStack_OnUpdate hk deltaTime) P"
| "apply_op AE_DEBUG hk P (Do_OnRender n) = on_stack n (LayerStack_OnRender hk) P"
| "apply_op AE_DEBUG hk P (Do_OnImGuiRender n) = on_stack n (LayerStack_OnImGuiRender hk) P"
| "apply_op AE_DEBUG hk P (Do_stack_move_construct n m) =
     (let (this, other) = LayerStack_move_ctor (stacks P m)
      in P\<lparr>stacks := (stacks P)(n := this, m := other)\<rparr>)"
| "apply_op AE_DEBUG hk P (Do_stack_move_assign n m) =
     (let (this, other) = LayerStack_move_assign (stacks P n) (stacks P m)
      in P\<lparr>stacks := (stacks P)(n := this, m := other)\<rparr>)"
| "apply_op AE_DEBUG hk P (Do_stack_destroy n) = on_stack n (LayerStack_dtor hk) P"
| "apply_op AE_DEBUG hk P (Do_SetEnabled a enabled) =
     P\<lparr>layer_objects := (layer_objects P)(a := SetEnabled enabled (layer_objects P a))\<rparr>"

definition run_ops :: "bool \<Rightarrow> 't hooks \<Rightarrow> 't stack_op list \<Rightarrow> program \<Rightarrow> program" where
  "run_ops AE_DEBUG hk ops P = foldl (apply_op AE_DEBUG hk) P ops"

text \<open>
  The stacks whose state stems from a moved-from stack: the source of every move, and the
  target of a move whose source was one of them.
\<close>

fun note_move :: "nat set \<Rightarrow> 't stack_op \<Rightarrow> nat set" where
  "note_move S (Do_stack_move_construct n m) = insert m (if m \<in> S then insert n S else S - {n})"
| "note_move S (Do_stack_move_assign n m) = insert m (if m \<in> S then insert n S else S - {n})"
| "note_move S op = S"

definition moved_from :: "'t stack_op list \<Rightarrow> nat set" where
  "moved_from ops = foldl note_move {} ops"

text \<open>
  Vocabulary for the theorems about the stack: its invariant, and a small program for
  examples (hooks that do nothing, all layers named Layer, two layers and an overlay
  pushed to stack 0 in a validated build), the world of its stack 0, and the same program
  followed by the move construction of stack 1 from stack 0.
\<close>

definition stack_inv :: "LayerStack \<Rightarrow> bool" where
  "stack_inv s \<longleftrightarrow> unat (m_LayerInsertIndex s) \<le> length (m_Layers s)"

definition hooks_idle :: "unit hooks" where
  "hooks_idle =
     \<lparr>Layer_OnAttach = (\<lambda>a s h. h), Layer_OnDetach = (\<lambda>a s h. h),
      Layer_OnEvent = (\<lambda>a s event h. (event, h)), Layer_OnUpdate = (\<lambda>a s deltaTime h. h),
      Layer_OnRender = (\<lambda>a s h. h), Layer_OnImGuiRender = (\<lambda>a s h. h)\<rparr>"

definition heap0 :: layer_heap where
  "heap0 = (\<lambda>a. Layer_ctor ''Layer'')"

definition demo_ops :: "unit stack_op list" where
  "demo_ops = [Do_PushLayer 0 (Ptr 1), Do_PushLayer 0 (Ptr 2), Do_PushOverlay 0 (Ptr 3)]"

definition demo_program :: program where
  "demo_program = run_ops True hooks_idle demo_ops (program_init heap0)"

definition demo_world :: world where
  "demo_world = world_of demo_program 0"


text \<open>
  Vocabulary for the theorems about the passes: the addresses of the entries that are
  non-null and enabled in a heap, in the order of the given sequence; hooks of which the
  one of layer 3 consumes every event; hooks of which the update hook renames its layer;
  a key event; the example world with layer 2 disabled.
\<close>

fun enabled_entries :: "layer_heap \<Rightarrow> ptr list \<Rightarrow> nat list" where
  "enabled_entries h [] = []"
| "enabled_entries h (nullptr # ps) = enabled_entries h ps"
| "enabled_entries h (Ptr a # ps) =
     (if IsEnabled (h a) then a # enabled_entries h ps else enabled_entries h ps)"

definition hooks_top_consumes :: "unit hooks" where
  "hooks_top_consumes =
     hooks_idle\<lparr>Layer_OnEvent := (\<lambda>a s event h. (if a = 3 then Consume event else event, h))\<rparr>"


definition key_event :: Event where
  "key_event = Event_from_id (ucast (EventType_value KEY_PRESSED)) (EventCategory_or INPUT KEYBOARD)"


section \<open>The listener registry (internal/events/EventManager.h, src/events/EventManager.cpp, src/events/EventListener.cpp)\<close>

text \<open>
  An \<^verbatim>\<open>EventListener\<close> owns a \<^verbatim>\<open>std::function<void(Event &)>\<close>, which
  may be empty (\<^verbatim>\<open>None\<close>). A callback may change the event it is given and the
  rest of the program, \<^verbatim>\<open>'w\<close>; it does not register or unregister listeners and
  does not replace callbacks while a dispatch is running (the spec calls mutation of the
  registered set during a broadcast unsafe).
\<close>

type_synonym 'w callback = "Event \<Rightarrow> 'w \<Rightarrow> Event \<times> 'w"

record 'w EventListener =
  m_Callback :: "'w callback option"

text \<open>
  The singleton \<^verbatim>\<open>EventManager\<close> with its
  \<^verbatim>\<open>std::unordered_set<EventListener *> m_pListeners\<close>, together with the
  listener objects by address. The set is the list of its elements in iteration order,
  without duplicates: \<^verbatim>\<open>insert\<close> does nothing when the key is present,
  \<^verbatim>\<open>find\<close> is membership, \<^verbatim>\<open>erase\<close> removes the element found. Where
  \<^verbatim>\<open>insert\<close> places a new key in the iteration order is unspecified in C++; the
  model appends it, and the theorems about dispatch hold for every order.
\<close>

record 'w event_system = observer +
  m_pListeners :: "ptr list"
  listener :: "nat \<Rightarrow> 'w EventListener"

definition event_system_init :: "'w event_system" where
  "event_system_init =
     \<lparr>observed = [], m_pListeners = [], listener = (\<lambda>a. \<lparr>m_Callback = None\<rparr>)\<rparr>"

definition unordered_set_insert :: "'a \<Rightarrow> 'a list \<Rightarrow> 'a list" where
  "unordered_set_insert x xs = (if x \<in> set xs then xs else xs @ [x])"

definition unordered_set_erase :: "'a \<Rightarrow> 'a list \<Rightarrow> 'a list" where
  "unordered_set_erase x xs = remove1 x xs"

definition AddListener :: "bool \<Rightarrow> ptr \<Rightarrow> 'w event_system \<Rightarrow> 'w event_system" where
  "AddListener AE_DEBUG pListener sys =
     (if AE_DEBUG \<and> pListener = nullptr
      then AE_LOG AE_WARNING ''Tried to add null EventListener to EventManager'' sys
      else if AE_DEBUG \<and> pListener \<in> set (m_pListeners sys)
      then AE_LOG AE_WARNING
             (''Tried to add EventListener that is already registered. ''
                @ ''This should not be possible and may be due to a library bug'') sys
      else sys\<lparr>m_pListeners := unordered_set_insert pListener (m_pListeners sys)\<rparr>)"

definition RemoveListener :: "bool \<Rightarrow> ptr \<Rightarrow> 'w event_system \<Rightarrow> 'w event_system" where
  "RemoveListener AE_DEBUG pListener sys =
     (if AE_DEBUG \<and> pListener = nullptr
      then AE_LOG AE_WARNING ''Tried to remove null EventListener from EventManager'' sys
      else if pListener \<notin> set (m_pListeners sys)
      then AE_LOG AE_WARNING
             (''Tried to remove EventListener from EventManager that was not registered. ''
                @ ''This should not be possible and may be due to a library bug'') sys
      else sys\<lparr>m_pListeners := unordered_set_erase pListener (m_pListeners sys)\<rparr>)"

text \<open>
  \<^verbatim>\<open>EventManager::DispatchEvent\<close>. The loop dereferences every element of the
  set, so a null element is a fault. Besides the event and the rest of the program, the
  model returns which listeners were called, in order, each with the event as it was
  handed to the callback.
\<close>

datatype fault = NullDereference

fun DispatchEvent_loop ::
  "(nat \<Rightarrow> 'w EventListener) \<Rightarrow> ptr list \<Rightarrow> Event \<times> 'w \<times> (nat \<times> Event) list
     \<Rightarrow> fault + Event \<times> 'w \<times> (nat \<times> Event) list" where
  "DispatchEvent_loop L [] st = Inr st"
| "DispatchEvent_loop L (nullptr # rest) st = Inl NullDereference"
| "DispatchEvent_loop L (Ptr a # rest) (event, u, called) =
     (case m_Callback (L a) of
        None \<Rightarrow> DispatchEvent_loop L rest (event, u, called)
      | Some callback \<Rightarrow>
          (let event1 = event\<lparr>m_Consumed := False\<rparr>;
               (event2, u2) = callback event1 u
           in DispatchEvent_loop L rest (event2, u2, called @ [(a, event1)])))"

definition DispatchEvent ::
  "'w event_system \<Rightarrow> Event \<Rightarrow> 'w \<Rightarrow> fault + Event \<times> 'w \<times> (nat \<times> Event) list" where
  "DispatchEvent sys event u = DispatchEvent_loop (listener sys) (m_pListeners sys) (event, u, [])"

text \<open>\<^verbatim>\<open>Event::Dispatch\<close> hands the event to the singleton.\<close>

definition Dispatch ::
  "Event \<Rightarrow> 'w event_system \<Rightarrow> 'w \<Rightarrow> fault + Event \<times> 'w \<times> (nat \<times> Event) list" where
  "Dispatch event sys u = DispatchEvent sys event u"




definition EventListener_ctor_default :: "bool \<Rightarrow> nat \<Rightarrow> 'w event_system \<Rightarrow> 'w event_system" where
  "EventListener_ctor_default AE_DEBUG this sys =
     AddListener AE_DEBUG (Ptr this)
       (sys\<lparr>listener := (listener sys)(this := \<lparr>m_Callback = None\<rparr>)\<rparr>)"

definition EventListener_ctor ::
  "bool \<Rightarrow> nat \<Rightarrow> 'w callback option \<Rightarrow> 'w event_system \<Rightarrow> 'w event_system" where
  "EventListener_ctor AE_DEBUG this callback sys =
     AddListener AE_DEBUG (Ptr this)
       (sys\<lparr>listener := (listener sys)(this := \<lparr>m_Callback = callback\<rparr>)\<rparr>)"

definition EventListener_move_ctor ::
  "bool \<Rightarrow> nat \<Rightarrow> nat \<Rightarrow> 'w event_system \<Rightarrow> 'w event_system" where
  "EventListener_move_ctor AE_DEBUG this other sys =
     (let sys1 = sys\<lparr>listener := (listener sys)
                   (this := \<lparr>m_Callback = m_Callback (listener sys other)\<rparr>)\<rparr>;
          sys2 = RemoveListener AE_DEBUG (Ptr other) sys1;
          sys3 = AddListener AE_DEBUG (Ptr this) sys2
      in sys3\<lparr>listener := (listener sys3)
                 (other := (listener sys3 other)\<lparr>m_Callback := None\<rparr>)\<rparr>)"

definition EventListener_move_assign ::
  "bool \<Rightarrow> nat \<Rightarrow> nat \<Rightarrow> 'w event_system \<Rightarrow> 'w event_system" where
  "EventListener_move_assign AE_DEBUG this other sys =
     (if this \<noteq> other
      then
        let sys1 = RemoveListener AE_DEBUG (Ptr other) sys;
            sys2 = sys1\<lparr>listener := (listener sys1)
                     (this := (listener sys1 this)
                        \<lparr>m_Callback := m_Callback (listener sys1 other)\<rparr>)\<rparr>
        in sys2\<lparr>listener := (listener sys2)
                  (other := (listener sys2 other)\<lparr>m_Callback := None\<rparr>)\<rparr>
      else sys)"

definition EventListener_dtor :: "bool \<Rightarrow> nat \<Rightarrow> 'w event_system \<Rightarrow> 'w event_system" where
  "EventListener_dtor AE_DEBUG this sys = RemoveListener AE_DEBUG (Ptr this) sys"

definition SetCallback :: "nat \<Rightarrow> 'w callback option \<Rightarrow> 'w event_system \<Rightarrow> 'w event_system" where
  "SetCallback this callback sys =
     sys\<lparr>listener := (listener sys)(this := (listener sys this)\<lparr>m_Callback := callback\<rparr>)\<rparr>"

text \<open>
  Programs that use the registry: any sequence of registry calls and of listener
  constructions, moves and destructions, from the empty registry.
\<close>

datatype 'w listener_op =
    Do_AddListener ptr | Do_RemoveListener ptr
  | Do_construct nat "'w callback option" | Do_move_construct nat nat
  | Do_move_assign nat nat | Do_destroy nat | Do_SetCallback nat "'w callback option"

fun apply_listener_op :: "bool \<Rightarrow> 'w event_system \<Rightarrow> 'w listener_op \<Rightarrow> 'w event_system" where
  "apply_listener_op AE_DEBUG sys (Do_AddListener p) = AddListener AE_DEBUG p sys"
| "apply_listener_op AE_DEBUG sys (Do_RemoveListener p) = RemoveListener AE_DEBUG p sys"
| "apply_listener_op AE_DEBUG sys (Do_construct this callback) =
     EventListener_ctor AE_DEBUG this callback sys"
| "apply_listener_op AE_DEBUG sys (Do_move_construct this other) =
     EventListener_move_ctor AE_DEBUG this other sys"
| "apply_listener_op AE_DEBUG sys (Do_move_assign this other) =
     EventListener_move_assign AE_DEBUG this other sys"
| "apply_listener_op AE_DEBUG sys (Do_destroy this) = EventListener_dtor AE_DEBUG this sys"
| "apply_listener_op AE_DEBUG sys (Do_SetCallback this callback) = SetCallback this callback sys"


definition run_listener_ops :: "bool \<Rightarrow> 'w listener_op list \<Rightarrow> 'w event_system" where
  "run_listener_ops AE_DEBUG ops = foldl (apply_listener_op AE_DEBUG) event_system_init ops"

text \<open>
  Vocabulary for the theorems about dispatch: the listeners of a sequence that have a
  callback, in order.
\<close>

fun with_callback :: "(nat \<Rightarrow> 'w EventListener) \<Rightarrow> ptr list \<Rightarrow> nat list" where
  "with_callback L [] = []"
| "with_callback L (nullptr # ps) = with_callback L ps"
| "with_callback L (Ptr a # ps) =
     (if m_Callback (L a) = None then with_callback L ps else a # with_callback L ps)"

text \<open>
  What the listener at address \<^verbatim>\<open>a\<close> makes of the event and of the rest of the
  program when a broadcast invokes it: its callback runs on the event with the consumed
  flag false (a listener without a callback changes nothing).
\<close>

definition invoke :: "(nat \<Rightarrow> 'w EventListener) \<Rightarrow> Event \<times> 'w \<Rightarrow> nat \<Rightarrow> Event \<times> 'w" where
  "invoke L eu a =
     (case m_Callback (L a) of
        None \<Rightarrow> eu
      | Some callback \<Rightarrow> callback ((fst eu)\<lparr>m_Consumed := False\<rparr>) (snd eu))"

text \<open>
  Example callbacks: one on a program without further state, which consumes the event; one
  on a program that counts, which consumes the event and adds one to the count.
\<close>

definition cb_consume :: "unit callback" where
  "cb_consume = (\<lambda>event u. (Consume event, u))"

definition cb_count :: "nat callback" where
  "cb_count = (\<lambda>event u. (Consume event, Suc u))"

text \<open>
  Example registries: three listeners constructed in a validated build, the second
  without a callback; a listener constructed at address 11 and then moved into a new
  listener at address 12; and three counting listeners, the second without a callback,
  constructed in a build without validation.
\<close>

definition demo_system :: "unit event_system" where
  "demo_system = run_listener_ops True
     [Do_construct 11 (Some cb_consume), Do_construct 12 None, Do_construct 13 (Some cb_consume)]"


definition count_ops :: "nat listener_op list" where
  "count_ops = [Do_construct 11 (Some cb_count), Do_construct 12 None, Do_construct 13 (Some cb_count)]"

definition count_system :: "nat event_system" where
  "count_system = run_listener_ops False count_ops"

section \<open>Theorems\<close>

subsection \<open>Category masks\<close>

text \<open>
  C9. For all category masks A, B and C: (A|B)&A = A; (A|B)&C = NONE whenever C is
  disjoint from both A and B (C&A = NONE and C&B = NONE); and ~~A = A.
\<close>

theorem category_mask_algebra:
  "Wrapper_and (Wrapper_or A B) A = A
   \<and> (Wrapper_and C A = Wrapper_of NONE \<and> Wrapper_and C B = Wrapper_of NONE
        \<longrightarrow> Wrapper_and (Wrapper_or A B) C = Wrapper_of NONE)
   \<and> Wrapper_not (Wrapper_not A) = A"
proof (intro conjI impI)
  show "Wrapper_and (Wrapper_or A B) A = A"
    by (cases A) (simp add: Wrapper_and_def Wrapper_or_def bit_eq_iff bit_and_iff bit_or_iff)
next
  assume h: "Wrapper_and C A = Wrapper_of NONE \<and> Wrapper_and C B = Wrapper_of NONE"
  then have ca: "m_Value C AND m_Value A = 0" and cb: "m_Value C AND m_Value B = 0"
    by (simp_all add: Wrapper_and_def Wrapper_of_def)
  have "(m_Value A OR m_Value B) AND m_Value C
          = (m_Value C AND m_Value A) OR (m_Value C AND m_Value B)"
    by (simp add: bit_eq_iff bit_and_iff bit_or_iff) blast
  then show "Wrapper_and (Wrapper_or A B) C = Wrapper_of NONE"
    by (simp add: ca cb Wrapper_and_def Wrapper_or_def Wrapper_of_def)
next
  show "Wrapper_not (Wrapper_not A) = A"
    by (cases A) (simp add: Wrapper_not_def)
qed

theorem category_mask_algebra_witness:
  "Wrapper_and (Wrapper_of MOUSE) (Wrapper_of INPUT) = Wrapper_of NONE
   \<and> Wrapper_and (Wrapper_of MOUSE) (Wrapper_of KEYBOARD) = Wrapper_of NONE
   \<and> Wrapper_and (EventCategory_or INPUT KEYBOARD) (Wrapper_of MOUSE) = Wrapper_of NONE
   \<and> Wrapper_and (EventCategory_or INPUT KEYBOARD) (Wrapper_of INPUT) = Wrapper_of INPUT
   \<and> Wrapper_not (Wrapper_not (Wrapper_of CUSTOM)) = Wrapper_of CUSTOM"
proof -
  have d1: "Wrapper_and (Wrapper_of MOUSE) (Wrapper_of INPUT) = Wrapper_of NONE"
    by (simp add: Wrapper_and_def Wrapper_of_def)
  have d2: "Wrapper_and (Wrapper_of MOUSE) (Wrapper_of KEYBOARD) = Wrapper_of NONE"
    by (simp add: Wrapper_and_def Wrapper_of_def)
  from category_mask_algebra
    [of "Wrapper_of INPUT" "Wrapper_of KEYBOARD" "Wrapper_of MOUSE"] d1 d2
  have "Wrapper_and (Wrapper_or (Wrapper_of INPUT) (Wrapper_of KEYBOARD)) (Wrapper_of MOUSE)
          = Wrapper_of NONE
        \<and> Wrapper_and (Wrapper_or (Wrapper_of INPUT) (Wrapper_of KEYBOARD)) (Wrapper_of INPUT)
          = Wrapper_of INPUT"
    by blast
  moreover from category_mask_algebra [of "Wrapper_of CUSTOM"]
  have "Wrapper_not (Wrapper_not (Wrapper_of CUSTOM)) = Wrapper_of CUSTOM"
    by blast
  ultimately show ?thesis
    using d1 d2 by (simp add: EventCategory_or_def)
qed

subsection \<open>Kind ids\<close>

lemma repr_init: "repr [] statics_init"
  by (simp add: repr_def statics_init_def)

lemma position_append: "T \<in> set h \<Longrightarrow> position T (h @ zs) = position T h"
  unfolding position_def by (induction h) auto

lemma position_fresh: "T \<notin> set h \<Longrightarrow> position T (h @ T # zs) = length h"
  unfolding position_def by (induction h) auto

lemma position_less: "T \<in> set h \<Longrightarrow> position T h < length h"
  unfolding position_def by (induction h) auto

lemma nth_position: "T \<in> set h \<Longrightarrow> h ! position T h = T"
  unfolding position_def by (induction h) auto

lemma position_nth: "distinct h \<Longrightarrow> n < length h \<Longrightarrow> position (h ! n) h = n"
  unfolding position_def
proof (induction h arbitrary: n)
  case Nil
  then show ?case by simp
next
  case (Cons a h)
  then show ?case by (cases n) auto
qed

lemma position_inj: "T \<in> set h \<Longrightarrow> U \<in> set h \<Longrightarrow> position T h = position U h \<Longrightarrow> T = U"
  by (metis nth_position)

lemma note_use_prefix: "\<exists>zs. note_use h k = h @ zs"
  by (cases k) auto

lemma note_use_distinct: "distinct h \<Longrightarrow> distinct (note_use h k)"
  by (cases k) auto

lemma note_use_set: "set (note_use h k) = set h \<union> (case k of Custom T \<Rightarrow> {T} | BuiltIn b \<Rightarrow> {})"
  by (cases k) auto

lemma foldl_note_use_prefix: "\<exists>zs. foldl note_use h ks = h @ zs"
proof (induction ks arbitrary: h)
  case Nil
  then show ?case by simp
next
  case (Cons k ks)
  obtain z1 where z1: "note_use h k = h @ z1" using note_use_prefix by blast
  obtain z2 where "foldl note_use (note_use h k) ks = note_use h k @ z2" using Cons by blast
  then show ?case using z1 by simp
qed

lemma foldl_note_use_distinct: "distinct h \<Longrightarrow> distinct (foldl note_use h ks)"
  by (induction ks arbitrary: h) (simp_all add: note_use_distinct)

lemma foldl_note_use_set: "set (foldl note_use h ks) = set h \<union> {T. Custom T \<in> set ks}"
proof (induction ks arbitrary: h)
  case Nil
  then show ?case by simp
next
  case (Cons k ks)
  show ?case unfolding foldl_Cons Cons.IH note_use_set by (cases k) auto
qed

lemma Get_repr:
  assumes "repr h st"
  shows "fst (EventTypeId_Get k st) = kid (note_use h k) k \<and> repr (note_use h k) (snd (EventTypeId_Get k st))"
proof (cases k)
  case (BuiltIn b)
  then show ?thesis using assms by (simp add: kid_def)
next
  case (Custom T)
  show ?thesis
  proof (cases "T \<in> set h")
    case True
    then show ?thesis using assms Custom by (simp add: kid_def repr_def)
  next
    case False
    then have n: "s_Id st T = None" using assms by (simp add: repr_def)
    have p: "position T (h @ [T]) = length h" using position_fresh[OF False, of "[]"] by simp
    show ?thesis using assms Custom False n p
      by (simp add: kid_def repr_def GetNextCustomEventId_def position_append)
  qed
qed

lemma kid_stable:
  assumes "\<And>T. k = Custom T \<Longrightarrow> T \<in> set h"
  shows "kid (foldl note_use h ks) k = kid h k"
proof (cases k)
  case (BuiltIn b)
  then show ?thesis by (simp add: kid_def)
next
  case (Custom T')
  obtain zs where "foldl note_use h ks = h @ zs" using foldl_note_use_prefix by blast
  moreover have "T' \<in> set h" using assms Custom by blast
  ultimately show ?thesis using Custom by (simp add: kid_def position_append)
qed

lemma Get_all_repr:
  "repr h st \<Longrightarrow>
     fst (EventTypeId_Get_all ks st) = map (kid (foldl note_use h ks)) ks
     \<and> repr (foldl note_use h ks) (snd (EventTypeId_Get_all ks st))"
proof (induction ks arbitrary: h st)
  case Nil
  then show ?case by simp
next
  case (Cons k ks)
  let ?h1 = "note_use h k"
  let ?st1 = "snd (EventTypeId_Get k st)"
  have g: "fst (EventTypeId_Get k st) = kid ?h1 k" and r1: "repr ?h1 ?st1"
    using Get_repr[OF Cons.prems] by blast+
  have ih: "fst (EventTypeId_Get_all ks ?st1) = map (kid (foldl note_use ?h1 ks)) ks"
           "repr (foldl note_use ?h1 ks) (snd (EventTypeId_Get_all ks ?st1))"
    using Cons.IH[OF r1] by blast+
  have "T \<in> set ?h1" if "k = Custom T" for T using that by auto
  then have st: "kid (foldl note_use ?h1 ks) k = kid ?h1 k" by (rule kid_stable)
  show ?case using g ih st by (simp add: split_beta)
qed

lemma Get_all_ids: "fst (EventTypeId_Get_all ks statics_init) = map (kid (first_uses ks)) ks"
  using Get_all_repr[OF repr_init] by (simp add: first_uses_def)

lemma builtin_id_less: "unat (ucast (EventType_value (builtin_type b)) :: 32 word) < 1000"
  by (cases b) simp_all

lemma builtin_id_inj:
  "(ucast (EventType_value (builtin_type a)) :: 32 word) = ucast (EventType_value (builtin_type b)) \<Longrightarrow> a = b"
  by (cases a; cases b; simp)

lemma first_uses_set: "set (first_uses ks) = {T. Custom T \<in> set ks}"
  by (simp add: first_uses_def foldl_note_use_set)

lemma first_uses_distinct: "distinct (first_uses ks)"
  by (simp add: first_uses_def foldl_note_use_distinct)

lemma first_uses_take:
  assumes "i < length ks" "ks ! i = Custom T" "Custom T \<notin> set (take i ks)"
  shows "\<exists>zs. first_uses ks = first_uses (take i ks) @ T # zs"
proof -
  have ks: "ks = take i ks @ Custom T # drop (Suc i) ks"
    using assms(1,2) by (metis id_take_nth_drop)
  have nin: "T \<notin> set (first_uses (take i ks))"
    using assms(3) by (simp add: first_uses_set)
  have "first_uses ks = foldl note_use (first_uses (take i ks) @ [T]) (drop (Suc i) ks)"
    by (subst ks) (simp add: first_uses_def nin[unfolded first_uses_def])
  moreover obtain zs where "foldl note_use (first_uses (take i ks) @ [T]) (drop (Suc i) ks)
      = (first_uses (take i ks) @ [T]) @ zs"
    using foldl_note_use_prefix by blast
  ultimately show ?thesis by simp
qed

lemma unat_custom_id:
  assumes "n < 2 ^ 32 - 1000"
  shows "unat (word_of_nat (1000 + n) :: 32 word) = 1000 + n"
proof -
  have "1000 + n < 2 ^ 32" using assms by simp
  then show ?thesis by (intro of_nat_inverse[OF refl]) simp
qed

lemma custom_id_bounds:
  assumes "length h \<le> 2 ^ 32 - 1000" "T \<in> set h"
  shows "unat (kid h (Custom T)) = 1000 + position T h"
proof -
  have "position T h < 2 ^ 32 - 1000" using position_less[OF assms(2)] assms(1) by linarith
  then show ?thesis by (simp only: kid_def kind.case unat_custom_id)
qed

lemma kid_inj:
  assumes len: "length h \<le> 2 ^ 32 - 1000"
    and a: "\<And>T. a = Custom T \<Longrightarrow> T \<in> set h"
    and b: "\<And>T. b = Custom T \<Longrightarrow> T \<in> set h"
    and eq: "kid h a = kid h b"
  shows "a = b"
proof (cases a)
  case A: (BuiltIn x)
  show ?thesis
  proof (cases b)
    case (BuiltIn y)
    then show ?thesis using A eq builtin_id_inj by (simp add: kid_def)
  next
    case (Custom U)
    have "unat (kid h a) < 1000" using A builtin_id_less by (simp add: kid_def)
    moreover have "unat (kid h b) = 1000 + position U h"
      using custom_id_bounds[OF len] b Custom by blast
    ultimately show ?thesis using eq by simp
  qed
next
  case A: (Custom T)
  have ta: "unat (kid h a) = 1000 + position T h"
    using custom_id_bounds[OF len] a A by blast
  show ?thesis
  proof (cases b)
    case (BuiltIn y)
    have "unat (kid h b) < 1000" using BuiltIn builtin_id_less by (simp add: kid_def)
    then show ?thesis using eq ta by simp
  next
    case (Custom U)
    have "unat (kid h b) = 1000 + position U h"
      using custom_id_bounds[OF len] b Custom by blast
    then have "position T h = position U h" using ta eq by simp
    then have "T = U" using position_inj a b A Custom by blast
    then show ?thesis using A Custom by simp
  qed
qed

lemma first_uses_fresh: "first_uses (map Custom [0..<n]) = [0..<n]"
  by (induction n) (simp_all add: first_uses_def)

lemma position_upt: "k < n \<Longrightarrow> position k [0..<n] = k"
  using position_nth[of "[0..<n]" k] by simp

lemma fresh_custom_id:
  assumes "k < n"
  shows "fst (EventTypeId_Get_all (map Custom [0..<n]) statics_init) ! k = word_of_nat (1000 + k)"
proof -
  have "fst (EventTypeId_Get_all (map Custom [0..<n]) statics_init) ! k
          = kid [0..<n] (map Custom [0..<n] ! k)"
    unfolding Get_all_ids first_uses_fresh using assms by simp
  also have "map Custom [0..<n] ! k = Custom k"
    using assms by simp
  also have "kid [0..<n] (Custom k) = word_of_nat (1000 + k)"
    using position_upt[OF assms] by (simp add: kid_def)
  finally show ?thesis .
qed

lemma ucast_custom: "(ucast (word_of_nat x :: 32 word) :: 16 word) = word_of_nat x"
  by transfer (simp add: take_bit_of_nat min_def)

lemma envelope_of_fresh_custom_id:
  assumes "k < n"
  shows "GetTypeId (Event_from_id
           (fst (EventTypeId_Get_all (map Custom [0..<n]) statics_init) ! k) c)
         = (word_of_nat (1000 + k) :: 16 word)"
  unfolding fresh_custom_id[OF assms]
  by (simp only: GetTypeId_def Event_from_id_def Event_ctor_def ucast_custom Event.simps)

lemma unat_envelope: "unat (GetTypeId (Event_from_id k c)) = unat k mod 2 ^ 16"
  by (simp add: GetTypeId_def Event_from_id_def Event_ctor_def unsigned_ucast_eq take_bit_eq_mod)

text \<open>
  C5 (amended). In a run that requests kind ids starting from the initial statics, and in
  which at most 2^32 - 1000 distinct custom kinds are requested: every request for a custom
  kind returns an id of at least 1000 (\<^verbatim>\<open>CUSTOM_START\<close>); two requests for the
  same kind return the same id; two requests for distinct kinds, built-in or custom, return
  distinct ids; and a custom kind that is requested for the first time gets an id greater
  than every id returned before it, so ids grow in the order of first use and none is
  handed out twice.
\<close>

theorem custom_kind_ids:
  assumes bound: "length (first_uses ks) \<le> 2 ^ 32 - 1000"
    and i: "i < length ks" and j: "j < length ks"
    and ids: "ids = fst (EventTypeId_Get_all ks statics_init)"
  shows "(\<forall>T. ks ! i = Custom T \<longrightarrow> 1000 \<le> unat (ids ! i))
       \<and> (ks ! i = ks ! j \<longrightarrow> ids ! i = ids ! j)
       \<and> (ks ! i \<noteq> ks ! j \<longrightarrow> ids ! i \<noteq> ids ! j)
       \<and> (\<forall>T. ks ! i = Custom T \<and> Custom T \<notin> set (take i ks) \<and> j < i \<longrightarrow> ids ! j < ids ! i)"
proof -
  let ?h = "first_uses ks"
  have idi: "ids ! i = kid ?h (ks ! i)" and idj: "ids ! j = kid ?h (ks ! j)"
    using i j ids by (simp_all add: Get_all_ids)
  have mem: "T \<in> set ?h" if "ks ! n = Custom T" "n < length ks" for n T
    using that by (metis first_uses_set mem_Collect_eq nth_mem)
  have c1: "\<forall>T. ks ! i = Custom T \<longrightarrow> 1000 \<le> unat (ids ! i)"
    using custom_id_bounds[OF bound] mem[OF _ i] idi by simp
  have c2: "ks ! i = ks ! j \<longrightarrow> ids ! i = ids ! j"
    using idi idj by simp
  have c3: "ks ! i \<noteq> ks ! j \<longrightarrow> ids ! i \<noteq> ids ! j"
    using kid_inj[OF bound, of "ks ! i" "ks ! j"] mem[OF _ i] mem[OF _ j] idi idj by metis
  have c4: "ids ! j < ids ! i"
    if f: "ks ! i = Custom T" "Custom T \<notin> set (take i ks)" and ji: "j < i" for T
  proof -
    obtain zs where zs: "?h = first_uses (take i ks) @ T # zs"
      using first_uses_take[OF i f] by blast
    have nin: "T \<notin> set (first_uses (take i ks))" using f(2) by (simp add: first_uses_set)
    have pT: "position T ?h = length (first_uses (take i ks))"
      unfolding zs using position_fresh[OF nin] by simp
    have ui: "unat (ids ! i) = 1000 + length (first_uses (take i ks))"
      using custom_id_bounds[OF bound mem[OF f(1) i]] idi f(1) pT by simp
    have "unat (ids ! j) < unat (ids ! i)"
    proof (cases "ks ! j")
      case (BuiltIn b)
      then have "unat (ids ! j) < 1000" using idj builtin_id_less by (simp add: kid_def)
      then show ?thesis using ui by simp
    next
      case (Custom U)
      have "ks ! j \<in> set (take i ks)" using ji i by (metis length_take min.absorb2 nat_less_le nth_mem nth_take)
      then have Uin: "U \<in> set (first_uses (take i ks))" using Custom by (simp add: first_uses_set)
      have "position U ?h = position U (first_uses (take i ks))"
        unfolding zs using position_append[OF Uin] by simp
      then have "position U ?h < length (first_uses (take i ks))"
        using position_less[OF Uin] by simp
      moreover have "unat (ids ! j) = 1000 + position U ?h"
        using custom_id_bounds[OF bound mem[OF Custom j]] idj Custom by simp
      ultimately show ?thesis using ui by simp
    qed
    then show ?thesis by (simp add: word_less_nat_alt)
  qed
  show ?thesis using c1 c2 c3 c4 by blast
qed

theorem custom_kind_ids_witness:
  "length (first_uses ks0) \<le> 2 ^ 32 - 1000 \<and> (2::nat) < length ks0 \<and> (0::nat) < length ks0
   \<and> ks0 ! 2 = Custom 3 \<and> Custom 3 \<notin> set (take 2 ks0)
   \<and> 1000 \<le> unat (fst (EventTypeId_Get_all ks0 statics_init) ! 2)
   \<and> fst (EventTypeId_Get_all ks0 statics_init) ! 2 \<noteq> fst (EventTypeId_Get_all ks0 statics_init) ! 0
   \<and> fst (EventTypeId_Get_all ks0 statics_init) ! 0 < fst (EventTypeId_Get_all ks0 statics_init) ! 2"
proof -
  have a: "length (first_uses ks0) \<le> 2 ^ 32 - 1000"
    by (simp add: ks0_def first_uses_def)
  have b: "(2::nat) < length ks0" "(0::nat) < length ks0" by (simp_all add: ks0_def)
  have c: "ks0 ! 2 = Custom 3" "Custom 3 \<notin> set (take 2 ks0)" "ks0 ! 2 \<noteq> ks0 ! 0"
    by (simp_all add: ks0_def)
  show ?thesis
    using custom_kind_ids[OF a b refl] a b c by simp
qed

text \<open>
  C5 as stated, for every custom kind without a bound on their number, does not hold:
  \<^verbatim>\<open>s_NextId\<close> is a \<^verbatim>\<open>uint32_t\<close> and wraps around. When the custom
  kinds 0, 1, ..., 4294966296 are requested in this order, the last of them gets the id 0,
  which is below 1000.
\<close>

theorem custom_kind_ids_wrap:
  "unat (fst (EventTypeId_Get_all (map Custom [0..<4294966297]) statics_init) ! 4294966296) < 1000"
proof -
  have lt: "(4294966296::nat) < 4294966297" by simp
  have "(word_of_nat (1000 + 4294966296) :: 32 word) = 0" by simp
  then show ?thesis unfolding fresh_custom_id[OF lt] by simp
qed

lemma Get_all_length: "length (fst (EventTypeId_Get_all ks statics_init)) = length ks"
  by (simp add: Get_all_ids)

lemma custom_envelope_not_1:
  assumes "j < 64537"
  shows "(word_of_nat (1000 + j) :: 16 word) \<noteq> 1"
proof
  assume "(word_of_nat (1000 + j) :: 16 word) = 1"
  then have "unat (word_of_nat (1000 + j) :: 16 word) = unat (1 :: 16 word)"
    by (rule arg_cong)
  then have m: "(1000 + j) mod 65536 = 1" unfolding unat_of_nat by simp
  show False
  proof (cases "j < 64536")
    case True
    then show False using m by simp
  next
    case False
    then have "j = 64536" using assms by simp
    then show False using m by simp
  qed
qed

lemma custom_id_not_1:
  assumes "j < 64537"
  shows "(word_of_nat (1000 + j) :: 32 word) \<noteq> 1"
proof
  assume "(word_of_nat (1000 + j) :: 32 word) = 1"
  then have "unat (word_of_nat (1000 + j) :: 32 word) = unat (1 :: 32 word)"
    by (rule arg_cong)
  then have "(1000 + j) mod 4294967296 = 1" unfolding unat_of_nat by simp
  then show False using assms by simp
qed

lemma EventType_value_not_1: "EventType_value t \<noteq> 1"
  by (cases t) simp_all

text \<open>
  C10 (amended). An event built from a 32-bit kind id \<^verbatim>\<open>k\<close> reports
  \<^verbatim>\<open>k mod 2^16\<close> as its type id. Consequently, when a custom kind is requested
  for the first time after at least 64536 other custom kinds, the event built for it
  carries a type id that lies in the range 0..999 that the source reserves for built-in
  kinds, or that equals the type id carried by the events of a custom kind requested
  earlier. Both happen: when the custom kinds 0, 1, ... are requested in this order, the
  events of kind 64636 carry the type id 100 of \<^verbatim>\<open>KEY_PRESSED\<close>, and the events
  of kind 65536 carry the same type id, 1000, as those of kind 0.
\<close>

theorem envelope_id_truncation:
  "unat (GetTypeId (Event_from_id k c)) = unat k mod 2 ^ 16
   \<and> (i < length ks \<and> ks ! i = Custom T \<and> Custom T \<notin> set (take i ks)
        \<and> 64536 \<le> length (first_uses (take i ks))
        \<and> ids = fst (EventTypeId_Get_all ks statics_init)
      \<longrightarrow> unat (GetTypeId (Event_from_id (ids ! i) c)) < 1000
          \<or> (\<exists>j<i. ks ! j \<noteq> ks ! i
                \<and> GetTypeId (Event_from_id (ids ! j) c) = GetTypeId (Event_from_id (ids ! i) c)))
   \<and> GetTypeId (Event_from_id
         (fst (EventTypeId_Get_all (map Custom [0..<64637]) statics_init) ! 64636) c)
       = EventType_value KEY_PRESSED
   \<and> GetTypeId (Event_from_id
         (fst (EventTypeId_Get_all (map Custom [0..<65537]) statics_init) ! 65536) c)
       = GetTypeId (Event_from_id
         (fst (EventTypeId_Get_all (map Custom [0..<65537]) statics_init) ! 0) c)"
proof (intro conjI impI)
  show "unat (GetTypeId (Event_from_id k c)) = unat k mod 2 ^ 16" by (rule unat_envelope)
next
  have lt: "(64636::nat) < 64637" by simp
  show "GetTypeId (Event_from_id
         (fst (EventTypeId_Get_all (map Custom [0..<64637]) statics_init) ! 64636) c)
       = EventType_value KEY_PRESSED"
    unfolding envelope_of_fresh_custom_id[OF lt] by simp
next
  have lt: "(65536::nat) < 65537" "(0::nat) < 65537" by simp_all
  show "GetTypeId (Event_from_id
         (fst (EventTypeId_Get_all (map Custom [0..<65537]) statics_init) ! 65536) c)
       = GetTypeId (Event_from_id
         (fst (EventTypeId_Get_all (map Custom [0..<65537]) statics_init) ! 0) c)"
    unfolding envelope_of_fresh_custom_id[OF lt(1)] envelope_of_fresh_custom_id[OF lt(2)] by simp
next
  assume h: "i < length ks \<and> ks ! i = Custom T \<and> Custom T \<notin> set (take i ks)
        \<and> 64536 \<le> length (first_uses (take i ks))
        \<and> ids = fst (EventTypeId_Get_all ks statics_init)"
  let ?H = "first_uses ks" and ?Hi = "first_uses (take i ks)"
  let ?n = "length ?Hi"
  from h have i: "i < length ks" and kT: "ks ! i = Custom T"
    and new: "Custom T \<notin> set (take i ks)" and many: "64536 \<le> ?n"
    and ids: "ids = fst (EventTypeId_Get_all ks statics_init)" by blast+
  obtain zs where zs: "?H = ?Hi @ T # zs" using first_uses_take[OF i kT new] by blast
  have nin: "T \<notin> set ?Hi" using new by (simp add: first_uses_set)
  have pT: "position T ?H = ?n" unfolding zs using position_fresh[OF nin] by simp
  have idi: "ids ! i = word_of_nat (1000 + ?n)"
    using i ids kT pT by (simp add: Get_all_ids kid_def)
  have envi: "GetTypeId (Event_from_id (ids ! i) c) = word_of_nat (1000 + ?n)"
    unfolding idi by (simp only: GetTypeId_def Event_from_id_def Event_ctor_def ucast_custom Event.simps)
  show "unat (GetTypeId (Event_from_id (ids ! i) c)) < 1000
          \<or> (\<exists>j<i. ks ! j \<noteq> ks ! i
                \<and> GetTypeId (Event_from_id (ids ! j) c) = GetTypeId (Event_from_id (ids ! i) c))"
  proof (cases "unat (GetTypeId (Event_from_id (ids ! i) c)) < 1000")
    case True
    then show ?thesis by blast
  next
    case False
    have u: "unat (GetTypeId (Event_from_id (ids ! i) c)) = (1000 + ?n) mod 65536"
      unfolding envi unat_of_nat by simp
    have big: "65536 \<le> ?n"
    proof (rule ccontr)
      assume "\<not> 65536 \<le> ?n"
      then have "(1000 + ?n) mod 65536 = 1000 + ?n - 65536"
        using many by (simp add: mod_if)
      then show False using False u \<open>\<not> 65536 \<le> ?n\<close> by simp
    qed
    define m where "m = ?n - 65536"
    have mn: "m < ?n" and nm: "?n = m + 65536" using big by (simp_all add: m_def)
    define U where "U = ?Hi ! m"
    have Uin: "U \<in> set ?Hi" using mn by (simp add: U_def)
    then have "Custom U \<in> set (take i ks)" by (simp add: first_uses_set)
    then obtain j where j: "j < length (take i ks)" "take i ks ! j = Custom U"
      by (meson in_set_conv_nth)
    then have ji: "j < i" and kj: "ks ! j = Custom U" by simp_all
    have "U \<noteq> T" using Uin nin by blast
    then have ne: "ks ! j \<noteq> ks ! i" using kj kT by simp
    have "position U ?H = position U ?Hi" unfolding zs using position_append[OF Uin] by simp
    also have "\<dots> = m" unfolding U_def using position_nth[OF first_uses_distinct mn] .
    finally have pU: "position U ?H = m" .
    have idj: "ids ! j = word_of_nat (1000 + m)"
      using ji i ids kj pU by (simp add: Get_all_ids kid_def)
    have envj: "GetTypeId (Event_from_id (ids ! j) c) = word_of_nat (1000 + m)"
      unfolding idj by (simp only: GetTypeId_def Event_from_id_def Event_ctor_def ucast_custom Event.simps)
    have "(word_of_nat (1000 + m) :: 16 word) = word_of_nat (1000 + ?n)"
      unfolding nm by (simp add: word_of_nat_eq_iff take_bit_eq_mod)
    then show ?thesis using ji ne envi envj by auto
  qed
qed

theorem envelope_id_truncation_witness:
  "(64536::nat) < length (map Custom [0..<64537])
   \<and> map Custom [0..<64537] ! 64536 = Custom 64536
   \<and> Custom 64536 \<notin> set (take 64536 (map Custom [0..<64537]))
   \<and> 64536 \<le> length (first_uses (take 64536 (map Custom [0..<64537])))
   \<and> unat (GetTypeId (Event_from_id 66000 (Wrapper_of CUSTOM))) = 464
   \<and> (unat (GetTypeId (Event_from_id
          (fst (EventTypeId_Get_all (map Custom [0..<64537]) statics_init) ! 64536) (Wrapper_of CUSTOM))) < 1000
       \<or> (\<exists>j<64536. map Custom [0..<64537] ! j \<noteq> map Custom [0..<64537] ! 64536
            \<and> GetTypeId (Event_from_id
                 (fst (EventTypeId_Get_all (map Custom [0..<64537]) statics_init) ! j) (Wrapper_of CUSTOM))
              = GetTypeId (Event_from_id
                 (fst (EventTypeId_Get_all (map Custom [0..<64537]) statics_init) ! 64536) (Wrapper_of CUSTOM))))"
proof -
  let ?ks = "map Custom [0..<64537]"
  have a: "(64536::nat) < length ?ks" by simp
  have b: "?ks ! 64536 = Custom 64536" by simp
  have t: "take 64536 ?ks = map Custom [0..<64536]" by (simp add: take_map)
  have c: "Custom 64536 \<notin> set (take 64536 ?ks)" unfolding t by auto
  have d: "64536 \<le> length (first_uses (take 64536 ?ks))" unfolding t first_uses_fresh by simp
  have e: "unat (GetTypeId (Event_from_id 66000 (Wrapper_of CUSTOM))) = 464"
    using envelope_id_truncation[of 66000 "Wrapper_of CUSTOM"] by simp
  from envelope_id_truncation[of _ "Wrapper_of CUSTOM" 64536 ?ks 64536
      "fst (EventTypeId_Get_all ?ks statics_init)"] a b c d
  show ?thesis using e by blast
qed

text \<open>
  C10 as stated, with a collision for every new custom kind, does not hold: an id in the
  range 0..999 need not be the id of a built-in kind. When the custom kinds 0, 1, ...,
  64537 are requested in this order, the events of kind 64537, requested after 64537
  others, carry the type id 1. No built-in kind has the id 1, the events of no kind
  requested earlier carry it, and it is the kind id of none of them.
\<close>

theorem envelope_id_without_collision:
  "GetTypeId (Event_from_id
       (fst (EventTypeId_Get_all (map Custom [0..<64538]) statics_init) ! 64537)
       (Wrapper_of CUSTOM)) = 1
   \<and> 1 \<notin> range EventType_value
   \<and> 1 \<notin> set (map (\<lambda>k. GetTypeId (Event_from_id k (Wrapper_of CUSTOM)))
              (take 64537 (fst (EventTypeId_Get_all (map Custom [0..<64538]) statics_init))))
   \<and> 1 \<notin> set (take 64537 (fst (EventTypeId_Get_all (map Custom [0..<64538]) statics_init)))"
proof (intro conjI)
  let ?ids = "fst (EventTypeId_Get_all (map Custom [0..<64538]) statics_init)"
  have lt: "(64537::nat) < 64538" by simp
  show "GetTypeId (Event_from_id (?ids ! 64537) (Wrapper_of CUSTOM)) = 1"
    unfolding envelope_of_fresh_custom_id[OF lt] by simp
  show "1 \<notin> range EventType_value" using EventType_value_not_1 by (auto dest: sym)
  have nth: "\<exists>j<64537. x = ?ids ! j" if mem: "x \<in> set (take 64537 ?ids)" for x
  proof -
    obtain j where "j < length (take 64537 ?ids)" "take 64537 ?ids ! j = x"
      using mem unfolding in_set_conv_nth by blast
    then have "j < 64537" "x = ?ids ! j" by (simp_all add: Get_all_length)
    then show ?thesis by blast
  qed
  show "1 \<notin> set (map (\<lambda>k. GetTypeId (Event_from_id k (Wrapper_of CUSTOM))) (take 64537 ?ids))"
  proof
    assume "1 \<in> set (map (\<lambda>k. GetTypeId (Event_from_id k (Wrapper_of CUSTOM))) (take 64537 ?ids))"
    then obtain x where x: "x \<in> set (take 64537 ?ids)"
      "GetTypeId (Event_from_id x (Wrapper_of CUSTOM)) = 1" by auto
    obtain j where j: "j < 64537" "x = ?ids ! j" using nth[OF x(1)] by blast
    have "j < 64538" using j(1) by simp
    then have "GetTypeId (Event_from_id x (Wrapper_of CUSTOM)) = (word_of_nat (1000 + j) :: 16 word)"
      unfolding j(2) by (rule envelope_of_fresh_custom_id)
    then show False using x(2) custom_envelope_not_1[OF j(1)] by simp
  qed
  show "1 \<notin> set (take 64537 ?ids)"
  proof
    assume "1 \<in> set (take 64537 ?ids)"
    then obtain j where j: "j < 64537" "1 = ?ids ! j" using nth by blast
    have "j < 64538" using j(1) by simp
    then have "?ids ! j = word_of_nat (1000 + j)" by (rule fresh_custom_id)
    then show False using j(2) custom_id_not_1[OF j(1)] by simp
  qed
qed


subsection \<open>The layer stack: structure\<close>

lemma std_find_bounds:
  "first_it \<le> last_it \<Longrightarrow>
     first_it \<le> std_find xs first_it last_it v \<and> std_find xs first_it last_it v \<le> last_it"
proof (induction xs first_it last_it v rule: std_find.induct)
  case (1 xs first_it last_it v)
  show ?case
  proof (cases "first_it < last_it \<and> xs ! first_it \<noteq> v")
    case True
    then have "Suc first_it \<le> std_find xs (Suc first_it) last_it v
               \<and> std_find xs (Suc first_it) last_it v \<le> last_it"
      using "1.IH" by simp
    then show ?thesis using True by (subst (1 2) std_find.simps) simp
  next
    case False
    then show ?thesis using "1.prems" by (subst (1 2) std_find.simps) auto
  qed
qed

lemma std_find_found:
  "std_find xs first_it last_it v < last_it \<Longrightarrow>
     xs ! std_find xs first_it last_it v = v
     \<and> (\<forall>j. first_it \<le> j \<and> j < std_find xs first_it last_it v \<longrightarrow> xs ! j \<noteq> v)"
proof (induction xs first_it last_it v rule: std_find.induct)
  case (1 xs first_it last_it v)
  show ?case
  proof (cases "first_it < last_it")
    case False
    then have "std_find xs first_it last_it v = last_it" by (subst std_find.simps) simp
    then show ?thesis using "1.prems" by simp
  next
    case lt: True
    show ?thesis
    proof (cases "xs ! first_it = v")
      case True
      then have "std_find xs first_it last_it v = first_it" using lt by (subst std_find.simps) simp
      then show ?thesis using True by auto
    next
      case False
      have eq: "std_find xs first_it last_it v = std_find xs (Suc first_it) last_it v"
        using lt False by (subst std_find.simps) simp
      have ih: "xs ! std_find xs (Suc first_it) last_it v = v
         \<and> (\<forall>j. Suc first_it \<le> j \<and> j < std_find xs (Suc first_it) last_it v \<longrightarrow> xs ! j \<noteq> v)"
        using "1.IH"[OF lt False] "1.prems" eq by simp
      show ?thesis unfolding eq using ih False
        by (metis Suc_leI le_neq_implies_less)
    qed
  qed
qed

lemma std_find_absent:
  "first_it \<le> last_it \<Longrightarrow> (\<forall>j. first_it \<le> j \<and> j < last_it \<longrightarrow> xs ! j \<noteq> v) \<Longrightarrow>
     std_find xs first_it last_it v = last_it"
proof (induction xs first_it last_it v rule: std_find.induct)
  case (1 xs first_it last_it v)
  show ?case
  proof (cases "first_it < last_it")
    case False
    then show ?thesis by (subst std_find.simps) simp
  next
    case True
    then have ne: "xs ! first_it \<noteq> v" using "1.prems" by simp
    have "std_find xs (Suc first_it) last_it v = last_it"
      using "1.IH"[OF True ne] True "1.prems" by simp
    then show ?thesis using True ne by (subst std_find.simps) simp
  qed
qed

lemma std_find_present:
  "first_it \<le> j \<Longrightarrow> j < last_it \<Longrightarrow> xs ! j = v \<Longrightarrow> std_find xs first_it last_it v \<le> j"
proof (induction xs first_it last_it v rule: std_find.induct)
  case (1 xs first_it last_it v)
  have lt: "first_it < last_it" using "1.prems" by simp
  show ?case
  proof (cases "xs ! first_it = v")
    case True
    then have "std_find xs first_it last_it v = first_it" using lt by (subst std_find.simps) simp
    then show ?thesis using "1.prems" by simp
  next
    case False
    then have "first_it \<noteq> j" using "1.prems" by blast
    then have "Suc first_it \<le> j" using "1.prems" by simp
    then have "std_find xs (Suc first_it) last_it v \<le> j"
      using "1.IH"[OF lt False] "1.prems" by simp
    then show ?thesis using lt False by (subst std_find.simps) simp
  qed
qed

lemma std_find_iff:
  assumes "first_it \<le> last_it"
  shows "std_find xs first_it last_it v \<noteq> last_it \<longleftrightarrow> (\<exists>j. first_it \<le> j \<and> j < last_it \<and> xs ! j = v)"
proof
  assume "std_find xs first_it last_it v \<noteq> last_it"
  then have lt: "std_find xs first_it last_it v < last_it"
    using std_find_bounds[OF assms, of xs v] by simp
  then show "\<exists>j. first_it \<le> j \<and> j < last_it \<and> xs ! j = v"
    using std_find_found[OF lt] std_find_bounds[OF assms, of xs v] by blast
next
  assume "\<exists>j. first_it \<le> j \<and> j < last_it \<and> xs ! j = v"
  then obtain j where "first_it \<le> j" "j < last_it" "xs ! j = v" by blast
  then show "std_find xs first_it last_it v \<noteq> last_it"
    using std_find_present[of first_it j last_it xs v] by simp
qed

lemma find_whole: "std_find xs 0 (length xs) v \<noteq> length xs \<longleftrightarrow> v \<in> set xs"
  by (simp add: std_find_iff in_set_conv_nth)

lemma find_in_layers:
  "b \<le> length xs \<Longrightarrow> std_find xs 0 b v \<noteq> b \<longleftrightarrow> v \<in> set (take b xs)"
  by (auto simp add: std_find_iff in_set_conv_nth)

lemma find_in_overlays:
  assumes "b \<le> length xs"
  shows "std_find xs b (length xs) v \<noteq> length xs \<longleftrightarrow> v \<in> set (drop b xs)"
proof -
  have "(\<exists>j. b \<le> j \<and> j < length xs \<and> xs ! j = v) \<longleftrightarrow> (\<exists>i<length xs - b. xs ! (b + i) = v)"
  proof
    assume "\<exists>j. b \<le> j \<and> j < length xs \<and> xs ! j = v"
    then obtain j where "b \<le> j" "j < length xs" "xs ! j = v" by blast
    then have "j - b < length xs - b \<and> xs ! (b + (j - b)) = v" by simp
    then show "\<exists>i<length xs - b. xs ! (b + i) = v" by blast
  next
    assume "\<exists>i<length xs - b. xs ! (b + i) = v"
    then obtain i where "i < length xs - b" "xs ! (b + i) = v" by blast
    then have "b \<le> b + i \<and> b + i < length xs \<and> xs ! (b + i) = v" by simp
    then show "\<exists>j. b \<le> j \<and> j < length xs \<and> xs ! j = v" by blast
  qed
  then show ?thesis using assms by (simp add: std_find_iff in_set_conv_nth)
qed

lemma LayerStack_updates:
  "s\<lparr>m_Layers := X, m_LayerInsertIndex := Y\<rparr> = \<lparr>m_Layers = X, m_LayerInsertIndex = Y\<rparr>"
  by (cases s) simp

lemma PushLayer_null:
  "PushLayer AE_DEBUG hk nullptr w =
     w\<lparr>observed := observed w @ [Log AE_WARNING ''Tried to push null layer to LayerStack'']\<rparr>"
  by (simp add: PushLayer_def AE_LOG_def)

lemma PushLayer_duplicate:
  "AE_DEBUG \<Longrightarrow> Ptr a \<in> set (m_Layers (stack w)) \<Longrightarrow>
     PushLayer AE_DEBUG hk (Ptr a) w =
       w\<lparr>observed := observed w @ [Log AE_WARNING
           (''Tried to push layer '' @ quoted (GetName (layers w a))
              @ '' that is already in the stack'')]\<rparr>"
  by (simp add: PushLayer_def AE_LOG_def find_whole)

lemma PushLayer_inserts:
  assumes "\<not> (AE_DEBUG \<and> Ptr a \<in> set (m_Layers (stack w)))"
    and "s1 = \<lparr>m_Layers = take (unat (m_LayerInsertIndex (stack w))) (m_Layers (stack w))
                   @ Ptr a # drop (unat (m_LayerInsertIndex (stack w))) (m_Layers (stack w)),
               m_LayerInsertIndex = m_LayerInsertIndex (stack w) + 1\<rparr>"
  shows "stack (PushLayer AE_DEBUG hk (Ptr a) w) = s1"
    and "layers (PushLayer AE_DEBUG hk (Ptr a) w) = Layer_OnAttach hk a s1 (layers w)"
    and "observed (PushLayer AE_DEBUG hk (Ptr a) w) =
           observed w @ [Call OnAttach a,
             Log AE_TRACE (''Pushed layer: '' @ GetName (layers (PushLayer AE_DEBUG hk (Ptr a) w) a))]"
  using assms
  by (auto simp add: PushLayer_def AE_LOG_def find_whole call_OnAttach_def vector_insert_def
        Let_def LayerStack_updates)

lemma PopLayer_null:
  "PopLayer hk nullptr w =
     w\<lparr>observed := observed w @ [Log AE_WARNING ''Tried to pop null layer from LayerStack'']\<rparr>"
  by (simp add: PopLayer_def AE_LOG_def)

lemma PopLayer_not_found:
  "stack_inv (stack w) \<Longrightarrow>
   Ptr a \<notin> set (take (unat (m_LayerInsertIndex (stack w))) (m_Layers (stack w))) \<Longrightarrow>
     PopLayer hk (Ptr a) w =
       w\<lparr>observed := observed w @ [Log AE_WARNING
           (''Layer not found in stack: '' @ GetName (layers w a))]\<rparr>"
  using find_in_layers[of "unat (m_LayerInsertIndex (stack w))" "m_Layers (stack w)" "Ptr a"]
  by (simp add: PopLayer_def AE_LOG_def stack_inv_def Let_def)

lemma PopLayer_found:
  assumes inv: "stack_inv (stack w)"
    and mem: "Ptr a \<in> set (take (unat (m_LayerInsertIndex (stack w))) (m_Layers (stack w)))"
    and i: "i = std_find (m_Layers (stack w)) 0 (unat (m_LayerInsertIndex (stack w))) (Ptr a)"
  shows "i < unat (m_LayerInsertIndex (stack w))"
    and "m_Layers (stack w) ! i = Ptr a"
    and "Ptr a \<notin> set (take i (m_Layers (stack w)))"
    and "stack (PopLayer hk (Ptr a) w) =
           \<lparr>m_Layers = take i (m_Layers (stack w)) @ drop (Suc i) (m_Layers (stack w)),
            m_LayerInsertIndex = m_LayerInsertIndex (stack w) - 1\<rparr>"
    and "layers (PopLayer hk (Ptr a) w) = Layer_OnDetach hk a (stack w) (layers w)"
    and "observed (PopLayer hk (Ptr a) w) =
           observed w @ [Call OnDetach a,
             Log AE_TRACE (''Popped layer: '' @ GetName (layers (PopLayer hk (Ptr a) w) a))]"
proof -
  let ?b = "unat (m_LayerInsertIndex (stack w))" and ?ls = "m_Layers (stack w)"
  have b: "?b \<le> length ?ls" using inv by (simp add: stack_inv_def)
  have ne: "i \<noteq> ?b" using find_in_layers[OF b, of "Ptr a"] mem i by simp
  then show lt: "i < ?b" using std_find_bounds[of 0 ?b ?ls "Ptr a"] i by simp
  show "?ls ! i = Ptr a" using std_find_found[of ?ls 0 ?b "Ptr a"] lt i by simp
  have "\<forall>j<i. ?ls ! j \<noteq> Ptr a" using std_find_found[of ?ls 0 ?b "Ptr a"] lt i by simp
  moreover have "i \<le> length ?ls" using lt b by simp
  ultimately show "Ptr a \<notin> set (take i ?ls)" by (auto simp add: in_set_conv_nth)
  show "stack (PopLayer hk (Ptr a) w) =
           \<lparr>m_Layers = take i ?ls @ drop (Suc i) ?ls, m_LayerInsertIndex = m_LayerInsertIndex (stack w) - 1\<rparr>"
    using ne i by (simp add: PopLayer_def AE_LOG_def call_OnDetach_def vector_erase_def Let_def
        LayerStack_updates)
  show "layers (PopLayer hk (Ptr a) w) = Layer_OnDetach hk a (stack w) (layers w)"
    using ne i by (simp add: PopLayer_def AE_LOG_def call_OnDetach_def vector_erase_def Let_def
        LayerStack_updates)
  show "observed (PopLayer hk (Ptr a) w) =
           observed w @ [Call OnDetach a,
             Log AE_TRACE (''Popped layer: '' @ GetName (layers (PopLayer hk (Ptr a) w) a))]"
    using ne i by (simp add: PopLayer_def AE_LOG_def call_OnDetach_def vector_erase_def Let_def
        LayerStack_updates)
qed

lemma PushOverlay_stack:
  "stack (PushOverlay AE_DEBUG hk p w) =
     (case p of nullptr \<Rightarrow> stack w
      | Ptr a \<Rightarrow> if AE_DEBUG \<and> p \<in> set (m_Layers (stack w)) then stack w
                 else (stack w)\<lparr>m_Layers := m_Layers (stack w) @ [p]\<rparr>)"
  by (cases p) (simp_all add: PushOverlay_def AE_LOG_def find_whole call_OnAttach_def Let_def)



lemma stack_AE_LOG [simp]: "stack (AE_LOG level line w) = stack w"
  by (simp add: AE_LOG_def)







lemma world_of_simps [simp]:
  "observed (world_of P n) = observed P"
  "stack (world_of P n) = stacks P n"
  "layers (world_of P n) = layer_objects P"
  by (simp_all add: world_of_def)












lemmas demo_defs =
  demo_program_def demo_ops_def run_ops_def program_init_def LayerStack_ctor_def on_stack_def
  world_of_def PushLayer_def PushOverlay_def std_find.simps vector_insert_def call_OnAttach_def
  AE_LOG_def hooks_idle_def Let_def

lemma demo_program_stacks:
  "stacks demo_program 0 = \<lparr>m_Layers = [Ptr 1, Ptr 2, Ptr 3], m_LayerInsertIndex = 2\<rparr>"
  by (simp add: demo_defs)

lemma demo_program_layers: "layer_objects demo_program = heap0"
  by (simp add: demo_defs)

lemma demo_world_stack:
  "stack demo_world = \<lparr>m_Layers = [Ptr 1, Ptr 2, Ptr 3], m_LayerInsertIndex = 2\<rparr>"
  by (simp add: demo_world_def demo_program_stacks)

lemma demo_world_layers: "layers demo_world = heap0"
  by (simp add: demo_world_def demo_program_layers)

lemma demo_world_inv:
  "unat (m_LayerInsertIndex (stack demo_world)) \<le> length (m_Layers (stack demo_world))"
  by (simp add: demo_world_stack)

lemma demo_moved_from: "moved_from (demo_ops @ [Do_stack_move_construct 1 0]) = {0}"
  by (simp add: moved_from_def demo_ops_def)






text \<open>
  C4. In any state of a stack whose boundary is at most the length of its stored sequence
  (\<^verbatim>\<open>run_ops_inv\<close>: every state reached from a freshly constructed stack by the
  stack's operations is one, stacks that stem from a moved-from stack apart), with
  \<^verbatim>\<open>ls\<close> the stored sequence and \<^verbatim>\<open>b\<close> the boundary:
  PushLayer on a null pointer logs a warning and changes nothing else; in a validated build
  PushLayer on a pointer that is anywhere in the stack logs a warning and changes nothing
  else; otherwise PushLayer inserts the pointer at index \<^verbatim>\<open>b\<close>, increments the
  boundary, and then calls the layer's OnAttach, which sees the stack after the insertion.
  PopLayer on a null pointer logs a warning and changes nothing else. PopLayer looks only
  at the positions before \<^verbatim>\<open>b\<close>: when the pointer is there, it calls OnDetach
  (which still sees the layer in the stack), erases the first occurrence and decrements
  the boundary; when it is not there, even if it is present as an overlay, it logs a
  warning and changes nothing else.
\<close>

theorem push_pop_layer:
  assumes "unat (m_LayerInsertIndex (stack w)) \<le> length (m_Layers (stack w))"
    and "ls = m_Layers (stack w)" and "b = unat (m_LayerInsertIndex (stack w))"
  shows
    "PushLayer AE_DEBUG hk nullptr w =
       w\<lparr>observed := observed w @ [Log AE_WARNING ''Tried to push null layer to LayerStack'']\<rparr>
   \<and> (AE_DEBUG \<and> Ptr a \<in> set ls \<longrightarrow>
        PushLayer AE_DEBUG hk (Ptr a) w =
          w\<lparr>observed := observed w @ [Log AE_WARNING
              (''Tried to push layer '' @ quoted (GetName (layers w a))
                 @ '' that is already in the stack'')]\<rparr>)
   \<and> (\<not> (AE_DEBUG \<and> Ptr a \<in> set ls) \<longrightarrow>
        (\<exists>s1 w'. s1 = \<lparr>m_Layers = take b ls @ Ptr a # drop b ls,
                         m_LayerInsertIndex = m_LayerInsertIndex (stack w) + 1\<rparr>
           \<and> w' = PushLayer AE_DEBUG hk (Ptr a) w
           \<and> stack w' = s1
           \<and> layers w' = Layer_OnAttach hk a s1 (layers w)
           \<and> observed w' = observed w @
                [Call OnAttach a, Log AE_TRACE (''Pushed layer: '' @ GetName (layers w' a))]))
   \<and> PopLayer hk nullptr w =
       w\<lparr>observed := observed w @ [Log AE_WARNING ''Tried to pop null layer from LayerStack'']\<rparr>
   \<and> (Ptr a \<in> set (take b ls) \<longrightarrow>
        (\<exists>i w'. i < b \<and> ls ! i = Ptr a \<and> Ptr a \<notin> set (take i ls)
           \<and> w' = PopLayer hk (Ptr a) w
           \<and> stack w' = \<lparr>m_Layers = take i ls @ drop (Suc i) ls,
                          m_LayerInsertIndex = m_LayerInsertIndex (stack w) - 1\<rparr>
           \<and> layers w' = Layer_OnDetach hk a (stack w) (layers w)
           \<and> observed w' = observed w @
                [Call OnDetach a, Log AE_TRACE (''Popped layer: '' @ GetName (layers w' a))]))
   \<and> (Ptr a \<notin> set (take b ls) \<longrightarrow>
        PopLayer hk (Ptr a) w =
          w\<lparr>observed := observed w @ [Log AE_WARNING
              (''Layer not found in stack: '' @ GetName (layers w a))]\<rparr>)"
proof -
  have inv: "stack_inv (stack w)" using assms(1) by (simp add: stack_inv_def)
  have c3: "\<exists>s1 w'. s1 = \<lparr>m_Layers = take b ls @ Ptr a # drop b ls,
                         m_LayerInsertIndex = m_LayerInsertIndex (stack w) + 1\<rparr>
           \<and> w' = PushLayer AE_DEBUG hk (Ptr a) w
           \<and> stack w' = s1
           \<and> layers w' = Layer_OnAttach hk a s1 (layers w)
           \<and> observed w' = observed w @
                [Call OnAttach a, Log AE_TRACE (''Pushed layer: '' @ GetName (layers w' a))]"
    if "\<not> (AE_DEBUG \<and> Ptr a \<in> set ls)"
    using PushLayer_inserts[OF that[unfolded assms(2)] refl, of hk] unfolding assms(2,3) by simp
  have c5: "\<exists>i w'. i < b \<and> ls ! i = Ptr a \<and> Ptr a \<notin> set (take i ls)
           \<and> w' = PopLayer hk (Ptr a) w
           \<and> stack w' = \<lparr>m_Layers = take i ls @ drop (Suc i) ls,
                          m_LayerInsertIndex = m_LayerInsertIndex (stack w) - 1\<rparr>
           \<and> layers w' = Layer_OnDetach hk a (stack w) (layers w)
           \<and> observed w' = observed w @
                [Call OnDetach a, Log AE_TRACE (''Popped layer: '' @ GetName (layers w' a))]"
    if "Ptr a \<in> set (take b ls)"
    using PopLayer_found[OF inv that[unfolded assms(2,3)] refl] unfolding assms(2,3) by blast
  show ?thesis
    using c3 c5 inv PushLayer_null[of AE_DEBUG hk w] PopLayer_null[of hk w]
      PushLayer_duplicate[of AE_DEBUG a w hk] PopLayer_not_found[of w a hk]
    unfolding assms(2,3) by blast
qed

theorem push_pop_layer_witness:
  "stack (PushLayer True hooks_idle nullptr demo_world) = stack demo_world
   \<and> Ptr 1 \<in> set (m_Layers (stack demo_world))
   \<and> stack (PushLayer True hooks_idle (Ptr 1) demo_world) = stack demo_world
   \<and> Ptr 4 \<notin> set (m_Layers (stack demo_world))
   \<and> stack (PushLayer True hooks_idle (Ptr 4) demo_world)
       = \<lparr>m_Layers = [Ptr 1, Ptr 2, Ptr 4, Ptr 3], m_LayerInsertIndex = 3\<rparr>
   \<and> observed (PushLayer True hooks_idle (Ptr 4) demo_world)
       = observed demo_world @ [Call OnAttach 4, Log AE_TRACE ''Pushed layer: Layer'']
   \<and> Ptr 1 \<in> set (take (unat (m_LayerInsertIndex (stack demo_world))) (m_Layers (stack demo_world)))
   \<and> stack (PopLayer hooks_idle (Ptr 1) demo_world)
       = \<lparr>m_Layers = [Ptr 2, Ptr 3], m_LayerInsertIndex = 1\<rparr>
   \<and> observed (PopLayer hooks_idle (Ptr 1) demo_world)
       = observed demo_world @ [Call OnDetach 1, Log AE_TRACE ''Popped layer: Layer'']
   \<and> Ptr 3 \<notin> set (take (unat (m_LayerInsertIndex (stack demo_world))) (m_Layers (stack demo_world)))
   \<and> Ptr 3 \<in> set (drop (unat (m_LayerInsertIndex (stack demo_world))) (m_Layers (stack demo_world)))
   \<and> stack (PopLayer hooks_idle (Ptr 3) demo_world) = stack demo_world
   \<and> observed (PopLayer hooks_idle (Ptr 3) demo_world)
       = observed demo_world @ [Log AE_WARNING ''Layer not found in stack: Layer'']"
proof -
  let ?ls = "[Ptr 1, Ptr 2, Ptr 3]"
  have ls: "m_Layers (stack demo_world) = ?ls"
    and b: "unat (m_LayerInsertIndex (stack demo_world)) = 2"
    by (simp_all add: demo_world_stack)
  have nm: "GetName (layers demo_world a) = ''Layer''" for a
    by (simp add: demo_world_layers heap0_def Layer_ctor_def GetName_def)
  note t = push_pop_layer[OF demo_world_inv ls[symmetric] b[symmetric],
      where AE_DEBUG = True and hk = hooks_idle]
  have null: "stack (PushLayer True hooks_idle nullptr demo_world) = stack demo_world"
    using t[where a = 1] by simp
  have dup: "stack (PushLayer True hooks_idle (Ptr 1) demo_world) = stack demo_world"
    using t[where a = 1] by simp
  have push: "stack (PushLayer True hooks_idle (Ptr 4) demo_world)
         = \<lparr>m_Layers = [Ptr 1, Ptr 2, Ptr 4, Ptr 3], m_LayerInsertIndex = 3\<rparr>
     \<and> observed (PushLayer True hooks_idle (Ptr 4) demo_world)
       = observed demo_world @ [Call OnAttach 4, Log AE_TRACE ''Pushed layer: Layer'']"
    using t[where a = 4]
    by (simp add: demo_world_stack demo_world_layers hooks_idle_def heap0_def Layer_ctor_def
          GetName_def)
  have "\<exists>i w'. i < 2 \<and> ?ls ! i = Ptr 1 \<and> Ptr 1 \<notin> set (take i ?ls)
           \<and> w' = PopLayer hooks_idle (Ptr 1) demo_world
           \<and> stack w' = \<lparr>m_Layers = take i ?ls @ drop (Suc i) ?ls,
                          m_LayerInsertIndex = m_LayerInsertIndex (stack demo_world) - 1\<rparr>
           \<and> layers w' = Layer_OnDetach hooks_idle 1 (stack demo_world) (layers demo_world)
           \<and> observed w' = observed demo_world @
                [Call OnDetach 1, Log AE_TRACE (''Popped layer: '' @ GetName (layers w' 1))]"
    using t[where a = 1] by simp
  then obtain i where i: "i < 2" "?ls ! i = Ptr 1"
    and st: "stack (PopLayer hooks_idle (Ptr 1) demo_world)
               = \<lparr>m_Layers = take i ?ls @ drop (Suc i) ?ls,
                  m_LayerInsertIndex = m_LayerInsertIndex (stack demo_world) - 1\<rparr>"
    and la: "layers (PopLayer hooks_idle (Ptr 1) demo_world)
               = Layer_OnDetach hooks_idle 1 (stack demo_world) (layers demo_world)"
    and ob: "observed (PopLayer hooks_idle (Ptr 1) demo_world) = observed demo_world @
                [Call OnDetach 1, Log AE_TRACE
                   (''Popped layer: '' @ GetName (layers (PopLayer hooks_idle (Ptr 1) demo_world) 1))]"
    by blast
  have "i = 0" using i by (cases i) simp_all
  then have pop: "stack (PopLayer hooks_idle (Ptr 1) demo_world)
       = \<lparr>m_Layers = [Ptr 2, Ptr 3], m_LayerInsertIndex = 1\<rparr>
     \<and> observed (PopLayer hooks_idle (Ptr 1) demo_world)
       = observed demo_world @ [Call OnDetach 1, Log AE_TRACE ''Popped layer: Layer'']"
    using st la ob
    by (simp add: demo_world_stack demo_world_layers hooks_idle_def heap0_def Layer_ctor_def
          GetName_def)
  have miss: "stack (PopLayer hooks_idle (Ptr 3) demo_world) = stack demo_world
     \<and> observed (PopLayer hooks_idle (Ptr 3) demo_world)
       = observed demo_world @ [Log AE_WARNING ''Layer not found in stack: Layer'']"
    using t[where a = 3] by (simp add: nm)
  show ?thesis using null dup push pop miss by (simp add: ls b)
qed

subsection \<open>The layer stack: passes\<close>

lemma OnEvent_loop_Nil: "OnEvent_loop hk [] ew = ew"
  by (cases ew) simp

lemma OnEvent_loop_consumed:
  "IsConsumed event \<Longrightarrow> OnEvent_loop hk ps (event, w) = (event, w)"
  by (cases ps) simp_all

lemma OnEvent_loop_append:
  "OnEvent_loop hk (xs @ ys) ew = OnEvent_loop hk ys (OnEvent_loop hk xs ew)"
proof (induction xs arbitrary: ew)
  case Nil
  then show ?case by (cases ew) simp
next
  case (Cons p xs)
  obtain event w where ew: "ew = (event, w)" by (cases ew)
  show ?case
  proof (cases "IsConsumed event")
    case True
    then show ?thesis unfolding ew by (simp add: OnEvent_loop_consumed)
  next
    case False
    then show ?thesis unfolding ew using Cons.IH by simp
  qed
qed

lemma OnEvent_loop_single:
  "OnEvent_loop hk [p] (event, w) =
     (case p of
        nullptr \<Rightarrow> (event, w)
      | Ptr a \<Rightarrow> if \<not> IsConsumed event \<and> IsEnabled (layers w a)
                 then call_OnEvent hk a (event, w) else (event, w))"
proof (cases p)
  case nullptr
  then show ?thesis by simp
next
  case (Ptr a)
  obtain e' w' where c: "call_OnEvent hk a (event, w) = (e', w')"
    by (cases "call_OnEvent hk a (event, w)")
  show ?thesis using Ptr c by simp
qed

lemma call_OnEvent_parts:
  "stack (snd (call_OnEvent hk a (event, w))) = stack w"
  "observed (snd (call_OnEvent hk a (event, w))) = observed w @ [Call OnEvent a]"
  "layers (snd (call_OnEvent hk a (event, w))) = snd (Layer_OnEvent hk a (stack w) event (layers w))"
  "fst (call_OnEvent hk a (event, w)) = fst (Layer_OnEvent hk a (stack w) event (layers w))"
  by (simp_all add: call_OnEvent_def split_beta)

lemma OnEvent_loop_observed:
  "\<exists>vs. observed (snd (OnEvent_loop hk ps (event, w))) = observed w @ map (Call OnEvent) vs
        \<and> subseq (map Ptr vs) ps"
proof (induction ps arbitrary: event w)
  case Nil
  then show ?case by simp
next
  case (Cons p ps)
  show ?case
  proof (cases "IsConsumed event")
    case True
    then show ?thesis by (simp add: exI[of _ "[]"])
  next
    case nc: False
    show ?thesis
    proof (cases "\<exists>a. p = Ptr a \<and> IsEnabled (layers w a)")
      case False
      then have eq: "OnEvent_loop hk (p # ps) (event, w) = OnEvent_loop hk ps (event, w)"
        using nc by (cases p) auto
      obtain vs where "observed (snd (OnEvent_loop hk ps (event, w))) = observed w @ map (Call OnEvent) vs"
        "subseq (map Ptr vs) ps" using Cons.IH by blast
      then show ?thesis unfolding eq using list_emb_Cons by blast
    next
      case True
      then obtain a where a: "p = Ptr a" "IsEnabled (layers w a)" by blast
      obtain e' w' where c: "call_OnEvent hk a (event, w) = (e', w')"
        by (cases "call_OnEvent hk a (event, w)")
      have ow': "observed w' = observed w @ [Call OnEvent a]"
        using call_OnEvent_parts(2)[of hk a event w] c by simp
      have eq: "OnEvent_loop hk (p # ps) (event, w) = OnEvent_loop hk ps (e', w')"
        using nc a c by simp
      obtain vs where vs: "observed (snd (OnEvent_loop hk ps (e', w'))) = observed w' @ map (Call OnEvent) vs"
        "subseq (map Ptr vs) ps" using Cons.IH by blast
      have "observed (snd (OnEvent_loop hk (p # ps) (event, w))) = observed w @ map (Call OnEvent) (a # vs)"
        unfolding eq vs(1) ow' by simp
      moreover have "subseq (map Ptr (a # vs)) (p # ps)" using vs(2) a(1) by simp
      ultimately show ?thesis by blast
    qed
  qed
qed

lemma enabled_entries_cong:
  "(\<And>a. m_Enabled (h' a) = m_Enabled (h a)) \<Longrightarrow> enabled_entries h' ps = enabled_entries h ps"
proof (induction ps)
  case Nil
  then show ?case by simp
next
  case (Cons p ps)
  then show ?case by (cases p) (simp_all add: IsEnabled_def)
qed

lemma OnEvent_loop_enabled:
  assumes keep: "\<And>a s e h b. m_Enabled (snd (Layer_OnEvent hk a s e h) b) = m_Enabled (h b)"
  shows "\<exists>vs. observed (snd (OnEvent_loop hk ps (event, w))) = observed w @ map (Call OnEvent) vs
        \<and> prefix vs (enabled_entries (layers w) ps)
        \<and> (\<not> IsConsumed (fst (OnEvent_loop hk ps (event, w))) \<longrightarrow>
             vs = enabled_entries (layers w) ps)"
proof (induction ps arbitrary: event w)
  case Nil
  then show ?case by simp
next
  case (Cons p ps)
  show ?case
  proof (cases "IsConsumed event")
    case True
    then show ?thesis by (simp add: exI[of _ "[]"])
  next
    case nc: False
    show ?thesis
    proof (cases "\<exists>a. p = Ptr a \<and> IsEnabled (layers w a)")
      case False
      then have eq: "OnEvent_loop hk (p # ps) (event, w) = OnEvent_loop hk ps (event, w)"
        using nc by (cases p) auto
      have en: "enabled_entries (layers w) (p # ps) = enabled_entries (layers w) ps"
        using False by (cases p) auto
      show ?thesis unfolding eq en using Cons.IH by blast
    next
      case True
      then obtain a where a: "p = Ptr a" "IsEnabled (layers w a)" by blast
      obtain e' w' where c: "call_OnEvent hk a (event, w) = (e', w')"
        by (cases "call_OnEvent hk a (event, w)")
      have ow': "observed w' = observed w @ [Call OnEvent a]"
        using call_OnEvent_parts(2)[of hk a event w] c by simp
      have "layers w' = snd (Layer_OnEvent hk a (stack w) event (layers w))"
        using call_OnEvent_parts(3)[of hk a event w] c by simp
      then have "enabled_entries (layers w') ps = enabled_entries (layers w) ps"
        using keep by (intro enabled_entries_cong) simp
      then have en: "enabled_entries (layers w) (p # ps) = a # enabled_entries (layers w') ps"
        using a by simp
      have eq: "OnEvent_loop hk (p # ps) (event, w) = OnEvent_loop hk ps (e', w')"
        using nc a c by simp
      obtain vs where vs: "observed (snd (OnEvent_loop hk ps (e', w'))) = observed w' @ map (Call OnEvent) vs"
        "prefix vs (enabled_entries (layers w') ps)"
        "\<not> IsConsumed (fst (OnEvent_loop hk ps (e', w'))) \<longrightarrow> vs = enabled_entries (layers w') ps"
        using Cons.IH by blast
      have "observed (snd (OnEvent_loop hk (p # ps) (event, w))) = observed w @ map (Call OnEvent) (a # vs)"
        unfolding eq vs(1) ow' by simp
      moreover have "prefix (a # vs) (enabled_entries (layers w) (p # ps))"
        unfolding en using vs(2) by simp
      moreover have "\<not> IsConsumed (fst (OnEvent_loop hk (p # ps) (event, w))) \<longrightarrow>
             a # vs = enabled_entries (layers w) (p # ps)"
        unfolding en eq using vs(3) by simp
      ultimately show ?thesis by blast
    qed
  qed
qed

lemma map_Call_inj: "map (Call k) vs = map (Call k) vs' \<Longrightarrow> vs = vs'"
  by (simp add: inj_on_def map_injective)

text \<open>
  C1. \<^verbatim>\<open>LayerStack::OnEvent\<close>, for every stack, event and hooks:
  an event that is already consumed reaches no entry and nothing changes. For every split
  of the stored sequence into a lower and an upper part, the pass is the pass over the
  upper part, in reverse, followed by the pass over the lower part, in reverse: entries
  stored later are visited first, so the overlays come before the layers, and within each
  partition the most recently inserted entry comes first; and when the event is consumed
  after the upper part, nothing of the lower part is visited. At its turn an entry gets
  \<^verbatim>\<open>OnEvent\<close> exactly when it is non-null and enabled and the event is not
  consumed. The pass adds to the observations nothing but \<^verbatim>\<open>OnEvent\<close>
  calls, on a subsequence of the reversed stored sequence; when the hooks leave the
  enabled flags alone these are a prefix of the enabled entries in reverse order, and all
  of them when the event ends unconsumed. In particular, when the stack holds
  [L1, L2, O], O is enabled and its hook consumes the event, O is the only entry called.
  After a successful PushLayer the new layer is visited after all overlays and before all
  older layers; after a successful PushOverlay the new overlay is visited first.
\<close>

theorem OnEvent_top_down_until_consumed:
  "(IsConsumed event \<longrightarrow> LayerStack_OnEvent hk event w = (event, w))
   \<and> (m_Layers (stack w) = lower @ upper \<longrightarrow>
        LayerStack_OnEvent hk event w
          = OnEvent_loop hk (rev lower) (OnEvent_loop hk (rev upper) (event, w))
        \<and> (IsConsumed (fst (OnEvent_loop hk (rev upper) (event, w))) \<longrightarrow>
             LayerStack_OnEvent hk event w = OnEvent_loop hk (rev upper) (event, w)))
   \<and> LayerStack_OnEvent hk event w
        = OnEvent_loop hk (rev (take (unat (m_LayerInsertIndex (stack w))) (m_Layers (stack w))))
            (OnEvent_loop hk (rev (drop (unat (m_LayerInsertIndex (stack w))) (m_Layers (stack w))))
               (event, w))
   \<and> OnEvent_loop hk [p] (event, w) =
        (case p of
           nullptr \<Rightarrow> (event, w)
         | Ptr a \<Rightarrow> if \<not> IsConsumed event \<and> IsEnabled (layers w a)
                    then call_OnEvent hk a (event, w) else (event, w))
   \<and> (\<exists>vs. observed (snd (LayerStack_OnEvent hk event w)) = observed w @ map (Call OnEvent) vs
          \<and> subseq (map Ptr vs) (rev (m_Layers (stack w)))
          \<and> ((\<forall>a s e h b. m_Enabled (snd (Layer_OnEvent hk a s e h) b) = m_Enabled (h b)) \<longrightarrow>
               prefix vs (enabled_entries (layers w) (rev (m_Layers (stack w))))
               \<and> (\<not> IsConsumed (fst (LayerStack_OnEvent hk event w)) \<longrightarrow>
                    vs = enabled_entries (layers w) (rev (m_Layers (stack w))))))
   \<and> (m_Layers (stack w) = [Ptr l1, Ptr l2, Ptr ov] \<and> \<not> IsConsumed event
        \<and> IsEnabled (layers w ov)
        \<and> IsConsumed (fst (Layer_OnEvent hk ov (stack w) event (layers w))) \<longrightarrow>
        LayerStack_OnEvent hk event w = call_OnEvent hk ov (event, w)
        \<and> observed (snd (LayerStack_OnEvent hk event w)) = observed w @ [Call OnEvent ov])
   \<and> (\<not> (AE_DEBUG \<and> Ptr x \<in> set (m_Layers (stack w)))
        \<and> w' = PushLayer AE_DEBUG hk (Ptr x) w \<longrightarrow>
        LayerStack_OnEvent hk event w'
          = OnEvent_loop hk (rev (take (unat (m_LayerInsertIndex (stack w))) (m_Layers (stack w))))
              (OnEvent_loop hk [Ptr x]
                 (OnEvent_loop hk
                    (rev (drop (unat (m_LayerInsertIndex (stack w))) (m_Layers (stack w))))
                    (event, w'))))
   \<and> (\<not> (AE_DEBUG \<and> Ptr x \<in> set (m_Layers (stack w)))
        \<and> w' = PushOverlay AE_DEBUG hk (Ptr x) w \<longrightarrow>
        LayerStack_OnEvent hk event w'
          = OnEvent_loop hk (rev (m_Layers (stack w))) (OnEvent_loop hk [Ptr x] (event, w')))"
proof -
  let ?ls = "m_Layers (stack w)"
  have pl: "LayerStack_OnEvent hk event w'
          = OnEvent_loop hk (rev (take (unat (m_LayerInsertIndex (stack w))) ?ls))
              (OnEvent_loop hk [Ptr x]
                 (OnEvent_loop hk (rev (drop (unat (m_LayerInsertIndex (stack w))) ?ls))
                    (event, w')))"
    if "\<not> (AE_DEBUG \<and> Ptr x \<in> set ?ls) \<and> w' = PushLayer AE_DEBUG hk (Ptr x) w"
  proof -
    have "m_Layers (stack w') = take (unat (m_LayerInsertIndex (stack w))) ?ls
            @ Ptr x # drop (unat (m_LayerInsertIndex (stack w))) ?ls"
      using that PushLayer_inserts(1)[OF _ refl, of AE_DEBUG x w hk] by simp
    then have r: "rev (m_Layers (stack w'))
            = rev (drop (unat (m_LayerInsertIndex (stack w))) ?ls)
                @ [Ptr x] @ rev (take (unat (m_LayerInsertIndex (stack w))) ?ls)"
      by simp
    show ?thesis unfolding LayerStack_OnEvent_def r OnEvent_loop_append ..
  qed
  have po: "LayerStack_OnEvent hk event w'
          = OnEvent_loop hk (rev ?ls) (OnEvent_loop hk [Ptr x] (event, w'))"
    if "\<not> (AE_DEBUG \<and> Ptr x \<in> set ?ls) \<and> w' = PushOverlay AE_DEBUG hk (Ptr x) w"
  proof -
    have "m_Layers (stack w') = ?ls @ [Ptr x]"
      using that by (auto simp add: PushOverlay_stack)
    then have r: "rev (m_Layers (stack w')) = [Ptr x] @ rev ?ls" by simp
    show ?thesis unfolding LayerStack_OnEvent_def r OnEvent_loop_append ..
  qed
  have c1: "LayerStack_OnEvent hk event w = (event, w)" if "IsConsumed event"
    using that by (simp add: LayerStack_OnEvent_def OnEvent_loop_consumed)
  have split: "LayerStack_OnEvent hk event w
          = OnEvent_loop hk (rev lo) (OnEvent_loop hk (rev up) (event, w))"
    if "?ls = lo @ up" for lo up
    using that by (simp add: LayerStack_OnEvent_def OnEvent_loop_append)
  have stop: "LayerStack_OnEvent hk event w = OnEvent_loop hk (rev up) (event, w)"
    if "?ls = lo @ up" "IsConsumed (fst (OnEvent_loop hk (rev up) (event, w)))" for lo up
  proof -
    obtain e' w' where r: "OnEvent_loop hk (rev up) (event, w) = (e', w')"
      by (cases "OnEvent_loop hk (rev up) (event, w)")
    then show ?thesis using that split[OF that(1)] by (simp add: OnEvent_loop_consumed)
  qed
  have c3: "LayerStack_OnEvent hk event w
        = OnEvent_loop hk (rev (take (unat (m_LayerInsertIndex (stack w))) ?ls))
            (OnEvent_loop hk (rev (drop (unat (m_LayerInsertIndex (stack w))) ?ls)) (event, w))"
    by (rule split) simp
  obtain vs where vs: "observed (snd (LayerStack_OnEvent hk event w)) = observed w @ map (Call OnEvent) vs"
      "subseq (map Ptr vs) (rev ?ls)"
    unfolding LayerStack_OnEvent_def using OnEvent_loop_observed by blast
  have en: "prefix vs (enabled_entries (layers w) (rev ?ls))
            \<and> (\<not> IsConsumed (fst (LayerStack_OnEvent hk event w)) \<longrightarrow>
                 vs = enabled_entries (layers w) (rev ?ls))"
    if keep: "\<forall>a s e h b. m_Enabled (snd (Layer_OnEvent hk a s e h) b) = m_Enabled (h b)"
  proof -
    obtain vs' where vs': "observed (snd (LayerStack_OnEvent hk event w)) = observed w @ map (Call OnEvent) vs'"
      "prefix vs' (enabled_entries (layers w) (rev ?ls))"
      "\<not> IsConsumed (fst (LayerStack_OnEvent hk event w)) \<longrightarrow> vs' = enabled_entries (layers w) (rev ?ls)"
      unfolding LayerStack_OnEvent_def using OnEvent_loop_enabled[of hk "rev ?ls" event w] keep by blast
    have "vs' = vs" using vs(1) vs'(1) map_Call_inj by simp
    then show ?thesis using vs'(2,3) by simp
  qed
  have ex: "LayerStack_OnEvent hk event w = call_OnEvent hk ov (event, w)
        \<and> observed (snd (LayerStack_OnEvent hk event w)) = observed w @ [Call OnEvent ov]"
    if h: "?ls = [Ptr l1, Ptr l2, Ptr ov]" "\<not> IsConsumed event" "IsEnabled (layers w ov)"
        "IsConsumed (fst (Layer_OnEvent hk ov (stack w) event (layers w)))"
  proof -
    have top: "OnEvent_loop hk (rev [Ptr ov]) (event, w) = call_OnEvent hk ov (event, w)"
      using h(2,3) by (simp add: OnEvent_loop_Nil)
    have "?ls = [Ptr l1, Ptr l2] @ [Ptr ov]" using h(1) by simp
    moreover have "IsConsumed (fst (OnEvent_loop hk (rev [Ptr ov]) (event, w)))"
      unfolding top using h(4) by (simp add: call_OnEvent_parts)
    ultimately have "LayerStack_OnEvent hk event w = call_OnEvent hk ov (event, w)"
      using stop top by metis
    then show ?thesis by (simp add: call_OnEvent_parts)
  qed
  show ?thesis
    using c1 split stop c3 OnEvent_loop_single[of hk p event w] vs en ex pl po by blast
qed

lemma demo_world_enabled: "IsEnabled (layers demo_world a)"
  by (simp add: demo_world_layers heap0_def Layer_ctor_def IsEnabled_def)

lemma key_event_fresh: "\<not> IsConsumed key_event"
  by (simp add: key_event_def Event_from_id_def Event_ctor_def IsConsumed_def)

text \<open>
  The example of the spec: layers 1 and 2 and overlay 3. When the hook of 3 consumes, only
  3 is called; when no hook consumes, the order is 3, 2, 1.
\<close>

theorem OnEvent_top_down_until_consumed_witness:
  "m_Layers (stack demo_world) = [Ptr 1, Ptr 2, Ptr 3]
   \<and> \<not> IsConsumed key_event \<and> IsEnabled (layers demo_world 3)
   \<and> IsConsumed (fst (Layer_OnEvent hooks_top_consumes 3 (stack demo_world) key_event
                         (layers demo_world)))
   \<and> observed (snd (LayerStack_OnEvent hooks_top_consumes key_event demo_world))
       = observed demo_world @ [Call OnEvent 3]
   \<and> observed (snd (LayerStack_OnEvent hooks_idle key_event demo_world))
       = observed demo_world @ [Call OnEvent 3, Call OnEvent 2, Call OnEvent 1]
   \<and> LayerStack_OnEvent hooks_idle (Consume key_event) demo_world
       = (Consume key_event, demo_world)"
proof -
  have ls: "m_Layers (stack demo_world) = [Ptr 1, Ptr 2, Ptr 3]"
    by (simp add: demo_world_stack)
  have cons: "IsConsumed (fst (Layer_OnEvent hooks_top_consumes 3 (stack demo_world) key_event
                         (layers demo_world)))"
    by (simp add: hooks_top_consumes_def hooks_idle_def Consume_def IsConsumed_def)
  have a: "observed (snd (LayerStack_OnEvent hooks_top_consumes key_event demo_world))
       = observed demo_world @ [Call OnEvent 3]"
    using OnEvent_top_down_until_consumed[where hk = hooks_top_consumes and event = key_event
        and w = demo_world and ?l1.0 = 1 and ?l2.0 = 2 and ov = 3]
      ls cons key_event_fresh demo_world_enabled[of 3]
    by blast
  have keep: "\<forall>a s e h b. m_Enabled (snd (Layer_OnEvent hooks_idle a s e h) b) = m_Enabled (h b)"
    by (simp add: hooks_idle_def)
  have unconsumed: "\<not> IsConsumed (fst (LayerStack_OnEvent hooks_idle key_event demo_world))"
    using key_event_fresh
    by (simp add: LayerStack_OnEvent_def ls demo_world_enabled call_OnEvent_def hooks_idle_def
        demo_world_layers heap0_def Layer_ctor_def IsEnabled_def)
  have en: "enabled_entries (layers demo_world) (rev (m_Layers (stack demo_world))) = [3, 2, 1]"
    by (simp add: ls demo_world_enabled)
  obtain vs where "observed (snd (LayerStack_OnEvent hooks_idle key_event demo_world))
         = observed demo_world @ map (Call OnEvent) vs"
      "vs = enabled_entries (layers demo_world) (rev (m_Layers (stack demo_world)))"
    using OnEvent_top_down_until_consumed[where hk = hooks_idle and event = key_event
        and w = demo_world] keep unconsumed
    by blast
  then have b: "observed (snd (LayerStack_OnEvent hooks_idle key_event demo_world))
       = observed demo_world @ [Call OnEvent 3, Call OnEvent 2, Call OnEvent 1]"
    unfolding en by simp
  have c: "LayerStack_OnEvent hooks_idle (Consume key_event) demo_world
       = (Consume key_event, demo_world)"
    using OnEvent_top_down_until_consumed[where hk = hooks_idle and event = "Consume key_event"
        and w = demo_world]
    by (simp add: Consume_def IsConsumed_def)
  show ?thesis using ls cons a b c key_event_fresh demo_world_enabled[of 3] by blast
qed


lemma for_each_layer_single:
  "for_each_layer f [p] w =
     (case p of nullptr \<Rightarrow> w | Ptr a \<Rightarrow> if IsEnabled (layers w a) then f a w else w)"
  by simp


lemma for_each_layer_observed:
  assumes obs: "\<And>a w. observed (f a w) = observed w @ [Call k a]"
  shows "\<exists>vs. observed (for_each_layer f ps w) = observed w @ map (Call k) vs
           \<and> subseq (map Ptr vs) ps"
proof (induction ps arbitrary: w)
  case Nil
  then show ?case by simp
next
  case (Cons p ps)
  show ?case
  proof (cases "\<exists>a. p = Ptr a \<and> IsEnabled (layers w a)")
    case False
    then have eq: "for_each_layer f (p # ps) w = for_each_layer f ps w"
      by (cases p) auto
    show ?thesis unfolding eq using Cons.IH[of w] list_emb_Cons by blast
  next
    case True
    then obtain a where a: "p = Ptr a" "IsEnabled (layers w a)" by blast
    obtain vs where vs: "observed (for_each_layer f ps (f a w)) = observed (f a w) @ map (Call k) vs"
      "subseq (map Ptr vs) ps" using Cons.IH by blast
    have "observed (for_each_layer f (p # ps) w) = observed w @ map (Call k) (a # vs)"
      using a vs(1) obs by simp
    moreover have "subseq (map Ptr (a # vs)) (p # ps)" using vs(2) a(1) by simp
    ultimately show ?thesis by blast
  qed
qed

lemma call_forward_observed:
  "observed (call_OnUpdate hk dt a w) = observed w @ [Call OnUpdate a]"
  "observed (call_OnRender hk a w) = observed w @ [Call OnRender a]"
  "observed (call_OnImGuiRender hk a w) = observed w @ [Call OnImGuiRender a]"
  by (simp_all add: call_OnUpdate_def call_OnRender_def call_OnImGuiRender_def)



















subsection \<open>The listener registry\<close>

lemma DispatchEvent_loop_calls:
  assumes "nullptr \<notin> set ps"
  shows "\<exists>new. DispatchEvent_loop L ps (event, u, called)
             = Inr (fst (foldl (invoke L) (event, u) (with_callback L ps)),
                    snd (foldl (invoke L) (event, u) (with_callback L ps)), called @ new)
           \<and> map fst new = with_callback L ps
           \<and> list_all (\<lambda>(a, e). \<not> IsConsumed e) new"
  using assms
proof (induction ps arbitrary: event u called)
  case Nil
  then show ?case by simp
next
  case (Cons p ps)
  then obtain a where p: "p = Ptr a" by (cases p) auto
  have nn: "nullptr \<notin> set ps" using Cons.prems by simp
  show ?case
  proof (cases "m_Callback (L a)")
    case None
    then show ?thesis using Cons.IH[OF nn, of event u called] p by simp
  next
    case (Some callback)
    let ?e1 = "event\<lparr>m_Consumed := False\<rparr>"
    obtain e2 u2 where c: "callback ?e1 u = (e2, u2)" by (cases "callback ?e1 u")
    have inv: "invoke L (event, u) a = (e2, u2)" using Some c by (simp add: invoke_def)
    let ?r = "foldl (invoke L) (e2, u2) (with_callback L ps)"
    obtain new where ih:
      "DispatchEvent_loop L ps (e2, u2, called @ [(a, ?e1)])
         = Inr (fst ?r, snd ?r, (called @ [(a, ?e1)]) @ new)"
      "map fst new = with_callback L ps" "list_all (\<lambda>(a, e). \<not> IsConsumed e) new"
      using Cons.IH[OF nn, of e2 u2 "called @ [(a, ?e1)]"] by blast
    have wc: "with_callback L (p # ps) = a # with_callback L ps" using p Some by simp
    have "DispatchEvent_loop L (p # ps) (event, u, called)
            = Inr (fst (foldl (invoke L) (event, u) (with_callback L (p # ps))),
                   snd (foldl (invoke L) (event, u) (with_callback L (p # ps))),
                   called @ ((a, ?e1) # new))"
      unfolding wc using p Some c ih(1) inv by simp
    moreover have "map fst ((a, ?e1) # new) = with_callback L (p # ps)"
      unfolding wc using ih(2) by simp
    moreover have "list_all (\<lambda>(a, e). \<not> IsConsumed e) ((a, ?e1) # new)"
      using ih(3) by (simp add: IsConsumed_def)
    ultimately show ?thesis by blast
  qed
qed

lemma DispatchEvent_loop_append:
  "DispatchEvent_loop L (ps @ qs) st =
     (case DispatchEvent_loop L ps st of
        Inl f \<Rightarrow> Inl f
      | Inr st' \<Rightarrow> DispatchEvent_loop L qs st')"
proof (induction L ps st rule: DispatchEvent_loop.induct)
  case (1 L st)
  then show ?case by simp
next
  case (2 L rest st)
  then show ?case by simp
next
  case (3 L a rest event u called)
  show ?case
  proof (cases "m_Callback (L a)")
    case None
    then show ?thesis using 3(1) by simp
  next
    case (Some callback)
    obtain e2 u2 where c: "callback (event\<lparr>m_Consumed := False\<rparr>) u = (e2, u2)"
      by (cases "callback (event\<lparr>m_Consumed := False\<rparr>) u")
    show ?thesis using Some c 3(2)[OF Some refl c[symmetric]] by simp
  qed
qed

lemma DispatchEvent_loop_single:
  "m_Callback (L a) = Some callback \<Longrightarrow>
     DispatchEvent_loop L [Ptr a] (event, u, called)
       = Inr (fst (callback (event\<lparr>m_Consumed := False\<rparr>) u),
              snd (callback (event\<lparr>m_Consumed := False\<rparr>) u),
              called @ [(a, event\<lparr>m_Consumed := False\<rparr>)])"
  by (simp add: split_beta Let_def)

lemma DispatchEvent_loop_skip:
  "m_Callback (L a) = None \<Longrightarrow> DispatchEvent_loop L [Ptr a] st = Inr st"
  by (cases st) simp

lemma invoke_callback:
  "m_Callback (L a) = Some callback \<Longrightarrow>
     invoke L (event, u) a = callback (event\<lparr>m_Consumed := False\<rparr>) u"
  by (simp add: invoke_def)

lemma set_with_callback:
  "set (with_callback L ps) = {a. Ptr a \<in> set ps \<and> m_Callback (L a) \<noteq> None}"
  by (induction L ps rule: with_callback.induct) auto

lemma count_with_callback:
  "distinct ps \<Longrightarrow>
     count_list (with_callback L ps) a
       = (if Ptr a \<in> set ps \<and> m_Callback (L a) \<noteq> None then 1 else 0)"
proof (induction L ps rule: with_callback.induct)
  case (1 L)
  then show ?case by simp
next
  case (2 L ps)
  then show ?case by simp
next
  case (3 L b ps)
  have "b \<notin> set (with_callback L ps)" using "3.prems" by (simp add: set_with_callback)
  then have "count_list (with_callback L ps) b = 0" by simp
  then show ?case using 3 by auto
qed

lemma DispatchEvent_result:
  assumes "nullptr \<notin> set (m_pListeners sys)" and "distinct (m_pListeners sys)"
  shows "\<exists>event' u' called. DispatchEvent sys event u = Inr (event', u', called)
     \<and> (event', u') = foldl (invoke (listener sys)) (event, u)
                         (with_callback (listener sys) (m_pListeners sys))
     \<and> map fst called = with_callback (listener sys) (m_pListeners sys)
     \<and> (\<forall>a. count_list (map fst called) a
              = (if Ptr a \<in> set (m_pListeners sys) \<and> m_Callback (listener sys a) \<noteq> None
                 then 1 else 0))
     \<and> list_all (\<lambda>(a, e). \<not> IsConsumed e) called"
proof -
  let ?r = "foldl (invoke (listener sys)) (event, u)
              (with_callback (listener sys) (m_pListeners sys))"
  obtain new where n:
    "DispatchEvent sys event u = Inr (fst ?r, snd ?r, [] @ new)"
    "map fst new = with_callback (listener sys) (m_pListeners sys)"
    "list_all (\<lambda>(a, e). \<not> IsConsumed e) new"
    unfolding DispatchEvent_def
    using DispatchEvent_loop_calls[OF assms(1), of "listener sys" event u "[]"] by blast
  have cnt: "\<forall>a. count_list (map fst new) a
              = (if Ptr a \<in> set (m_pListeners sys) \<and> m_Callback (listener sys a) \<noteq> None
                 then 1 else 0)"
    unfolding n(2) using count_with_callback[OF assms(2)] by blast
  have "DispatchEvent sys event u = Inr (fst ?r, snd ?r, new)
     \<and> (fst ?r, snd ?r) = ?r
     \<and> map fst new = with_callback (listener sys) (m_pListeners sys)
     \<and> (\<forall>a. count_list (map fst new) a
              = (if Ptr a \<in> set (m_pListeners sys) \<and> m_Callback (listener sys a) \<noteq> None
                 then 1 else 0))
     \<and> list_all (\<lambda>(a, e). \<not> IsConsumed e) new"
    using n cnt by simp
  then show ?thesis by (intro exI)
qed

lemma AddListener_registry:
  "m_pListeners (AddListener AE_DEBUG p sys) =
     (if (AE_DEBUG \<and> p = nullptr) \<or> p \<in> set (m_pListeners sys) then m_pListeners sys
      else m_pListeners sys @ [p])"
  by (simp add: AddListener_def AE_LOG_def unordered_set_insert_def)

lemma RemoveListener_registry:
  "m_pListeners (RemoveListener AE_DEBUG p sys) =
     (if AE_DEBUG \<and> p = nullptr then m_pListeners sys else remove1 p (m_pListeners sys))"
  by (simp add: RemoveListener_def AE_LOG_def unordered_set_erase_def remove1_idem)

lemma AddListener_listener [simp]: "listener (AddListener AE_DEBUG p sys) = listener sys"
  by (simp add: AddListener_def AE_LOG_def)

lemma RemoveListener_listener [simp]: "listener (RemoveListener AE_DEBUG p sys) = listener sys"
  by (simp add: RemoveListener_def AE_LOG_def)

lemma AddListener_distinct:
  "distinct (m_pListeners sys) \<Longrightarrow> distinct (m_pListeners (AddListener AE_DEBUG p sys))"
  by (simp add: AddListener_registry)

lemma RemoveListener_distinct:
  "distinct (m_pListeners sys) \<Longrightarrow> distinct (m_pListeners (RemoveListener AE_DEBUG p sys))"
  by (simp add: RemoveListener_registry)

lemma apply_listener_op_distinct:
  assumes "distinct (m_pListeners sys)"
  shows "distinct (m_pListeners (apply_listener_op AE_DEBUG sys op))"
proof (cases op)
  case (Do_move_construct this other)
  then show ?thesis using assms
    by (simp add: EventListener_move_ctor_def Let_def AddListener_registry RemoveListener_registry)
next
  case (Do_move_assign this other)
  then show ?thesis using assms
    by (simp add: EventListener_move_assign_def Let_def RemoveListener_registry)
qed (simp_all add: assms AddListener_registry RemoveListener_registry EventListener_ctor_def
       EventListener_dtor_def SetCallback_def)

lemma run_listener_ops_distinct: "distinct (m_pListeners (run_listener_ops AE_DEBUG ops))"
proof -
  have "distinct (m_pListeners sys) \<Longrightarrow>
          distinct (m_pListeners (foldl (apply_listener_op AE_DEBUG) sys ops))" for sys :: "'a event_system"
    by (induction ops arbitrary: sys) (simp_all add: apply_listener_op_distinct)
  then show ?thesis by (simp add: run_listener_ops_def event_system_init_def)
qed

lemma apply_listener_op_null_free:
  assumes "nullptr \<notin> set (m_pListeners sys)" and "AE_DEBUG \<or> op \<noteq> Do_AddListener nullptr"
  shows "nullptr \<notin> set (m_pListeners (apply_listener_op AE_DEBUG sys op))"
proof (cases op)
  case (Do_move_construct this other)
  then show ?thesis using assms(1)
    by (auto simp add: EventListener_move_ctor_def Let_def AddListener_registry
          RemoveListener_registry dest: notin_set_remove1)
next
  case (Do_move_assign this other)
  then show ?thesis using assms(1)
    by (auto simp add: EventListener_move_assign_def Let_def RemoveListener_registry
          dest: notin_set_remove1)
next
  case (Do_AddListener p)
  then show ?thesis using assms by (auto simp add: AddListener_registry)
qed (auto simp add: assms(1) AddListener_registry RemoveListener_registry EventListener_ctor_def
       EventListener_dtor_def SetCallback_def dest: notin_set_remove1)

lemma run_listener_ops_null_free:
  assumes "AE_DEBUG \<or> Do_AddListener nullptr \<notin> set ops"
  shows "nullptr \<notin> set (m_pListeners (run_listener_ops AE_DEBUG ops))"
proof -
  have "nullptr \<notin> set (m_pListeners sys) \<Longrightarrow> AE_DEBUG \<or> Do_AddListener nullptr \<notin> set ops \<Longrightarrow>
          nullptr \<notin> set (m_pListeners (foldl (apply_listener_op AE_DEBUG) sys ops))"
    for sys :: "'a event_system" and ops
  proof (induction ops arbitrary: sys)
    case Nil
    then show ?case by simp
  next
    case (Cons op ops)
    have "nullptr \<notin> set (m_pListeners (apply_listener_op AE_DEBUG sys op))"
      using Cons.prems by (intro apply_listener_op_null_free) auto
    then show ?case using Cons.IH[of "apply_listener_op AE_DEBUG sys op"] Cons.prems(2) by auto
  qed
  then show ?thesis using assms by (simp add: run_listener_ops_def event_system_init_def)
qed

text \<open>
  C2. Every registry that listener constructions, moves and destructions and registry
  calls build holds no pointer twice and, in a validated build or when no call registers a
  null pointer, no null pointer. For every registry that holds no null pointer and no
  pointer twice, every event, whatever the callbacks do to the event and to the rest of the
  program: the dispatch returns normally; the listeners it calls are exactly the registered
  ones that have a callback, in iteration order, each exactly once, and those with an
  empty callback are skipped; every callback is applied to the event with its consumed flag
  false, whether the event came in consumed or an earlier callback consumed it, and to the
  program as the callbacks before it left it, so that the event and the program after the
  dispatch are what these applications produce one after the other. Step by step: the
  dispatch over a sequence of listeners is the dispatch over its front part followed by the
  dispatch over its back part; a listener with a callback has the callback applied to the
  event with the flag reset, and a listener without one changes nothing.
\<close>

theorem DispatchEvent_calls_every_listener_once:
  "(nullptr \<notin> set (m_pListeners sys) \<and> distinct (m_pListeners sys) \<longrightarrow>
      (\<exists>event' u' called. DispatchEvent sys event u = Inr (event', u', called)
         \<and> (event', u') = foldl (invoke (listener sys)) (event, u)
                             (with_callback (listener sys) (m_pListeners sys))
         \<and> map fst called = with_callback (listener sys) (m_pListeners sys)
         \<and> (\<forall>a. count_list (map fst called) a
                  = (if Ptr a \<in> set (m_pListeners sys) \<and> m_Callback (listener sys a) \<noteq> None
                     then 1 else 0))
         \<and> list_all (\<lambda>(a, e). \<not> IsConsumed e) called))
   \<and> (m_Callback (L a) = Some callback \<longrightarrow>
        invoke L (event, u) a = callback (event\<lparr>m_Consumed := False\<rparr>) u
        \<and> DispatchEvent_loop L [Ptr a] (event, u, called0)
            = Inr (fst (callback (event\<lparr>m_Consumed := False\<rparr>) u),
                   snd (callback (event\<lparr>m_Consumed := False\<rparr>) u),
                   called0 @ [(a, event\<lparr>m_Consumed := False\<rparr>)]))
   \<and> (m_Callback (L a) = None \<longrightarrow> DispatchEvent_loop L [Ptr a] st = Inr st)
   \<and> DispatchEvent_loop L (ps @ qs) st =
        (case DispatchEvent_loop L ps st of
           Inl f \<Rightarrow> Inl f
         | Inr st' \<Rightarrow> DispatchEvent_loop L qs st')
   \<and> (AE_DEBUG \<or> Do_AddListener nullptr \<notin> set ops \<longrightarrow>
        nullptr \<notin> set (m_pListeners (run_listener_ops AE_DEBUG ops))
        \<and> distinct (m_pListeners (run_listener_ops AE_DEBUG ops)))"
proof (intro conjI impI)
  assume "nullptr \<notin> set (m_pListeners sys) \<and> distinct (m_pListeners sys)"
  then show "\<exists>event' u' called. DispatchEvent sys event u = Inr (event', u', called)
         \<and> (event', u') = foldl (invoke (listener sys)) (event, u)
                             (with_callback (listener sys) (m_pListeners sys))
         \<and> map fst called = with_callback (listener sys) (m_pListeners sys)
         \<and> (\<forall>a. count_list (map fst called) a
                  = (if Ptr a \<in> set (m_pListeners sys) \<and> m_Callback (listener sys a) \<noteq> None
                     then 1 else 0))
         \<and> list_all (\<lambda>(a, e). \<not> IsConsumed e) called"
    using DispatchEvent_result[of sys event u] by blast
next
  assume "m_Callback (L a) = Some callback"
  then show "invoke L (event, u) a = callback (event\<lparr>m_Consumed := False\<rparr>) u"
    and "DispatchEvent_loop L [Ptr a] (event, u, called0)
            = Inr (fst (callback (event\<lparr>m_Consumed := False\<rparr>) u),
                   snd (callback (event\<lparr>m_Consumed := False\<rparr>) u),
                   called0 @ [(a, event\<lparr>m_Consumed := False\<rparr>)])"
    by (rule invoke_callback DispatchEvent_loop_single)+
next
  assume "m_Callback (L a) = None"
  then show "DispatchEvent_loop L [Ptr a] st = Inr st" by (rule DispatchEvent_loop_skip)
next
  show "DispatchEvent_loop L (ps @ qs) st =
        (case DispatchEvent_loop L ps st of
           Inl f \<Rightarrow> Inl f
         | Inr st' \<Rightarrow> DispatchEvent_loop L qs st')"
    by (rule DispatchEvent_loop_append)
next
  assume "AE_DEBUG \<or> Do_AddListener nullptr \<notin> set ops"
  then show "nullptr \<notin> set (m_pListeners (run_listener_ops AE_DEBUG ops))"
    by (rule run_listener_ops_null_free)
next
  show "distinct (m_pListeners (run_listener_ops AE_DEBUG ops))"
    by (rule run_listener_ops_distinct)
qed

lemma demo_system_registry: "m_pListeners demo_system = [Ptr 11, Ptr 12, Ptr 13]"
  by (simp add: demo_system_def run_listener_ops_def event_system_init_def EventListener_ctor_def
      AddListener_def unordered_set_insert_def)

lemma demo_system_callbacks:
  "m_Callback (listener demo_system 11) = Some cb_consume"
  "m_Callback (listener demo_system 12) = None"
  "m_Callback (listener demo_system 13) = Some cb_consume"
  by (simp_all add: demo_system_def run_listener_ops_def event_system_init_def EventListener_ctor_def
      AddListener_def unordered_set_insert_def)

lemma count_system_registry: "m_pListeners count_system = [Ptr 11, Ptr 12, Ptr 13]"
  by (simp add: count_system_def count_ops_def run_listener_ops_def event_system_init_def
      EventListener_ctor_def AddListener_def unordered_set_insert_def)

lemma count_system_callbacks:
  "m_Callback (listener count_system 11) = Some cb_count"
  "m_Callback (listener count_system 12) = None"
  "m_Callback (listener count_system 13) = Some cb_count"
  by (simp_all add: count_system_def count_ops_def run_listener_ops_def event_system_init_def
      EventListener_ctor_def AddListener_def unordered_set_insert_def)

text \<open>
  Three registered listeners in a build without validation, the first and the third count
  and consume, the second has no callback, and the event comes in consumed: the first and
  the third are called, once each, both with an unconsumed event, and the count goes from
  0 to 2.
\<close>

theorem DispatchEvent_calls_every_listener_once_witness:
  "Do_AddListener nullptr \<notin> set count_ops
   \<and> nullptr \<notin> set (m_pListeners count_system) \<and> distinct (m_pListeners count_system)
   \<and> (\<exists>called. DispatchEvent count_system (Consume key_event) 0
                   = Inr (Consume key_event, 2, called)
        \<and> map fst called = [11, 13]
        \<and> count_list (map fst called) 11 = 1 \<and> count_list (map fst called) 12 = 0
        \<and> count_list (map fst called) 13 = 1
        \<and> list_all (\<lambda>(a, e). \<not> IsConsumed e) called)
   \<and> m_Callback (listener count_system 11) = Some cb_count
   \<and> DispatchEvent_loop (listener count_system) [Ptr 11] (Consume key_event, 0, [])
       = Inr (Consume key_event, 1, [(11, key_event)])"
proof -
  have o: "False \<or> Do_AddListener nullptr \<notin> set count_ops" by (simp add: count_ops_def)
  note t = DispatchEvent_calls_every_listener_once[where sys = count_system
      and event = "Consume key_event" and u = 0 and L = "listener count_system" and a = 11
      and callback = cb_count and ?called0.0 = "[]" and AE_DEBUG = False and ops = count_ops]
  have r: "nullptr \<notin> set (m_pListeners (run_listener_ops False count_ops))
        \<and> distinct (m_pListeners (run_listener_ops False count_ops))"
    by (rule t[THEN conjunct2, THEN conjunct2, THEN conjunct2, THEN conjunct2, THEN mp, OF o])
  then have ab: "nullptr \<notin> set (m_pListeners count_system) \<and> distinct (m_pListeners count_system)"
    by (simp add: count_system_def)
  have wc: "with_callback (listener count_system) (m_pListeners count_system) = [11, 13]"
    by (simp add: count_system_registry count_system_callbacks)
  have fresh: "key_event\<lparr>m_Consumed := False\<rparr> = key_event"
    by (simp add: key_event_def Event_from_id_def Event_ctor_def)
  have res: "foldl (invoke (listener count_system)) (Consume key_event, 0) [11, 13]
               = (Consume key_event, 2)"
    by (simp add: invoke_def count_system_callbacks cb_count_def Consume_def fresh)
  obtain event' u' called where c:
    "DispatchEvent count_system (Consume key_event) 0 = Inr (event', u', called)"
    "(event', u') = foldl (invoke (listener count_system)) (Consume key_event, 0)
                      (with_callback (listener count_system) (m_pListeners count_system))"
    "map fst called = with_callback (listener count_system) (m_pListeners count_system)"
    "\<forall>a. count_list (map fst called) a
              = (if Ptr a \<in> set (m_pListeners count_system) \<and> m_Callback (listener count_system a) \<noteq> None
                 then 1 else 0)"
    "list_all (\<lambda>(a, e). \<not> IsConsumed e) called"
    using t[THEN conjunct1, THEN mp, OF ab] by blast
  have eu: "event' = Consume key_event" "u' = 2" using c(2) unfolding wc res by simp_all
  have cnt: "count_list (map fst called) 11 = 1" "count_list (map fst called) 12 = 0"
    "count_list (map fst called) 13 = 1"
    using c(4) by (simp_all add: count_system_registry count_system_callbacks)
  have d: "\<exists>called. DispatchEvent count_system (Consume key_event) 0
                   = Inr (Consume key_event, 2, called)
        \<and> map fst called = [11, 13]
        \<and> count_list (map fst called) 11 = 1 \<and> count_list (map fst called) 12 = 0
        \<and> count_list (map fst called) 13 = 1
        \<and> list_all (\<lambda>(a, e). \<not> IsConsumed e) called"
    using c(1,3,5) cnt unfolding eu wc by (intro exI[of _ called]) simp
  have cb: "m_Callback (listener count_system 11) = Some cb_count"
    by (rule count_system_callbacks)
  have e: "DispatchEvent_loop (listener count_system) [Ptr 11] (Consume key_event, 0, [])
       = Inr (Consume key_event, 1, [(11, key_event)])"
    unfolding t[THEN conjunct2, THEN conjunct1, THEN mp, OF cb, THEN conjunct2]
    by (simp add: cb_count_def Consume_def fresh)
  have o': "Do_AddListener nullptr \<notin> set count_ops" using o by simp
  show ?thesis
    by (intro conjI) (rule o' ab[THEN conjunct1] ab[THEN conjunct2] d cb e)+
qed

lemma apply_listener_op_no_null:
  assumes "nullptr \<notin> set (m_pListeners sys)"
  shows "nullptr \<notin> set (m_pListeners (apply_listener_op True sys op))"
proof (cases op)
  case (Do_move_construct this other)
  then show ?thesis using assms
    by (auto simp add: EventListener_move_ctor_def Let_def AddListener_registry
          RemoveListener_registry dest: notin_set_remove1)
next
  case (Do_move_assign this other)
  then show ?thesis using assms
    by (auto simp add: EventListener_move_assign_def Let_def RemoveListener_registry
          dest: notin_set_remove1)
qed (auto simp add: assms AddListener_registry RemoveListener_registry EventListener_ctor_def
       EventListener_dtor_def SetCallback_def dest: notin_set_remove1)

lemma run_listener_ops_no_null: "nullptr \<notin> set (m_pListeners (run_listener_ops True ops))"
proof -
  have "nullptr \<notin> set (m_pListeners sys) \<Longrightarrow>
          nullptr \<notin> set (m_pListeners (foldl (apply_listener_op True) sys ops))"
    for sys :: "'a event_system"
    by (induction ops arbitrary: sys) (simp_all add: apply_listener_op_no_null)
  then show ?thesis by (simp add: run_listener_ops_def event_system_init_def)
qed

text \<open>
  C6 (amended). In a validated build AddListener on a null pointer logs a warning and
  changes nothing else; a build without validation has no such check and inserts whatever
  pointer it is given. In every build AddListener on a registered pointer leaves the
  registry as it is, and in a validated build a registered non-null pointer is rejected
  with a warning; a non-null pointer is registered afterwards. The registry reached by
  any sequence of registry and listener operations never holds a pointer twice, and both
  operations keep it so; in a validated build it never holds a null pointer. In a validated build RemoveListener on a null pointer logs a
  warning and changes nothing else; in every build RemoveListener on a pointer that is
  not registered logs a warning and leaves the registry as it is; a registered non-null
  pointer is unregistered. Both operations always return: there is no fault.
\<close>

theorem registry_add_remove:
  "AddListener True nullptr sys
     = AE_LOG AE_WARNING ''Tried to add null EventListener to EventManager'' sys
   \<and> set (m_pListeners (AddListener False p sys)) = insert p (set (m_pListeners sys))
   \<and> (p \<in> set (m_pListeners sys) \<longrightarrow>
        m_pListeners (AddListener AE_DEBUG p sys) = m_pListeners sys)
   \<and> (p \<noteq> nullptr \<and> p \<in> set (m_pListeners sys) \<longrightarrow>
        AddListener True p sys
          = AE_LOG AE_WARNING
              (''Tried to add EventListener that is already registered. ''
                 @ ''This should not be possible and may be due to a library bug'') sys)
   \<and> (p \<noteq> nullptr \<longrightarrow>
        set (m_pListeners (AddListener AE_DEBUG p sys)) = insert p (set (m_pListeners sys)))
   \<and> distinct (m_pListeners (run_listener_ops AE_DEBUG ops))
   \<and> nullptr \<notin> set (m_pListeners (run_listener_ops True ops))
   \<and> (distinct (m_pListeners sys) \<longrightarrow>
        distinct (m_pListeners (AddListener AE_DEBUG p sys))
        \<and> distinct (m_pListeners (RemoveListener AE_DEBUG p sys)))
   \<and> RemoveListener True nullptr sys
       = AE_LOG AE_WARNING ''Tried to remove null EventListener from EventManager'' sys
   \<and> (p \<notin> set (m_pListeners sys) \<and> \<not> (AE_DEBUG \<and> p = nullptr) \<longrightarrow>
        RemoveListener AE_DEBUG p sys
          = AE_LOG AE_WARNING
              (''Tried to remove EventListener from EventManager that was not registered. ''
                 @ ''This should not be possible and may be due to a library bug'') sys)
   \<and> (p \<notin> set (m_pListeners sys) \<longrightarrow>
        m_pListeners (RemoveListener AE_DEBUG p sys) = m_pListeners sys
        \<and> (\<exists>line. observed (RemoveListener AE_DEBUG p sys) = observed sys @ [Log AE_WARNING line]))
   \<and> (p \<noteq> nullptr \<and> distinct (m_pListeners sys) \<longrightarrow>
        set (m_pListeners (RemoveListener AE_DEBUG p sys)) = set (m_pListeners sys) - {p})"
proof -
  have a: "set (m_pListeners (AddListener False p sys)) = insert p (set (m_pListeners sys))"
    by (auto simp add: AddListener_registry)
  have b: "set (m_pListeners (AddListener AE_DEBUG p sys)) = insert p (set (m_pListeners sys))"
    if "p \<noteq> nullptr"
    using that by (auto simp add: AddListener_registry)
  have c: "m_pListeners (RemoveListener AE_DEBUG p sys) = m_pListeners sys
        \<and> (\<exists>line. observed (RemoveListener AE_DEBUG p sys) = observed sys @ [Log AE_WARNING line])"
    if "p \<notin> set (m_pListeners sys)"
    using that by (simp add: RemoveListener_def AE_LOG_def)
  have d: "set (m_pListeners (RemoveListener AE_DEBUG p sys)) = set (m_pListeners sys) - {p}"
    if "p \<noteq> nullptr" "distinct (m_pListeners sys)"
    using that by (simp add: RemoveListener_registry)
  have e: "AddListener True nullptr sys
     = AE_LOG AE_WARNING ''Tried to add null EventListener to EventManager'' sys"
    by (simp add: AddListener_def)
  have f: "m_pListeners (AddListener AE_DEBUG p sys) = m_pListeners sys"
    if "p \<in> set (m_pListeners sys)"
    using that by (simp add: AddListener_registry)
  have g: "AddListener True p sys
          = AE_LOG AE_WARNING
              (''Tried to add EventListener that is already registered. ''
                 @ ''This should not be possible and may be due to a library bug'') sys"
    if "p \<noteq> nullptr \<and> p \<in> set (m_pListeners sys)"
    using that by (simp add: AddListener_def)
  have h: "RemoveListener True nullptr sys
       = AE_LOG AE_WARNING ''Tried to remove null EventListener from EventManager'' sys"
    by (simp add: RemoveListener_def)
  have i: "RemoveListener AE_DEBUG p sys
          = AE_LOG AE_WARNING
              (''Tried to remove EventListener from EventManager that was not registered. ''
                 @ ''This should not be possible and may be due to a library bug'') sys"
    if "p \<notin> set (m_pListeners sys) \<and> \<not> (AE_DEBUG \<and> p = nullptr)"
    using that by (auto simp add: RemoveListener_def)
  show ?thesis
    using a b c d e f g h i run_listener_ops_distinct[of AE_DEBUG ops]
      run_listener_ops_no_null[of ops]
      AddListener_distinct[of sys AE_DEBUG p] RemoveListener_distinct[of sys AE_DEBUG p]
    by blast
qed

theorem registry_add_remove_witness:
  "Ptr 11 \<in> set (m_pListeners demo_system) \<and> distinct (m_pListeners demo_system)
   \<and> m_pListeners (AddListener True (Ptr 11) demo_system) = [Ptr 11, Ptr 12, Ptr 13]
   \<and> m_pListeners (AddListener False (Ptr 11) demo_system) = [Ptr 11, Ptr 12, Ptr 13]
   \<and> observed (AddListener True (Ptr 11) demo_system)
       = observed demo_system @ [Log AE_WARNING
           (''Tried to add EventListener that is already registered. ''
              @ ''This should not be possible and may be due to a library bug'')]
   \<and> m_pListeners (AddListener True nullptr demo_system) = [Ptr 11, Ptr 12, Ptr 13]
   \<and> Ptr 14 \<notin> set (m_pListeners demo_system) \<and> nullptr \<notin> set (m_pListeners demo_system)
   \<and> m_pListeners (RemoveListener False (Ptr 14) demo_system) = [Ptr 11, Ptr 12, Ptr 13]
   \<and> m_pListeners (RemoveListener False nullptr demo_system) = [Ptr 11, Ptr 12, Ptr 13]
   \<and> observed (RemoveListener False nullptr demo_system)
       = observed demo_system @ [Log AE_WARNING
           (''Tried to remove EventListener from EventManager that was not registered. ''
              @ ''This should not be possible and may be due to a library bug'')]
   \<and> Ptr 12 \<notin> set (m_pListeners (RemoveListener True (Ptr 12) demo_system))
   \<and> Ptr 13 \<in> set (m_pListeners (RemoveListener True (Ptr 12) demo_system))
   \<and> distinct (m_pListeners (AddListener True (Ptr 14) demo_system))"
proof -
  have r: "m_pListeners demo_system = [Ptr 11, Ptr 12, Ptr 13]" by (rule demo_system_registry)
  have h: "Ptr 11 \<in> set (m_pListeners demo_system)" "distinct (m_pListeners demo_system)"
    "Ptr 14 \<notin> set (m_pListeners demo_system)" "nullptr \<notin> set (m_pListeners demo_system)"
    by (simp_all add: r)
  note t = registry_add_remove[where sys = demo_system and ops = "[] :: unit listener_op list"]
  have a1: "m_pListeners (AddListener True (Ptr 11) demo_system) = [Ptr 11, Ptr 12, Ptr 13]"
    using t[where p = "Ptr 11" and AE_DEBUG = True,
        THEN conjunct2, THEN conjunct2, THEN conjunct1, THEN mp, OF h(1)] r by simp
  have a2: "m_pListeners (AddListener False (Ptr 11) demo_system) = [Ptr 11, Ptr 12, Ptr 13]"
    using t[where p = "Ptr 11" and AE_DEBUG = False,
        THEN conjunct2, THEN conjunct2, THEN conjunct1, THEN mp, OF h(1)] r by simp
  have "Ptr 11 \<noteq> nullptr \<and> Ptr 11 \<in> set (m_pListeners demo_system)" using h(1) by simp
  from t[where p = "Ptr 11" and AE_DEBUG = True,
        THEN conjunct2, THEN conjunct2, THEN conjunct2, THEN conjunct1, THEN mp, OF this]
  have b: "observed (AddListener True (Ptr 11) demo_system)
       = observed demo_system @ [Log AE_WARNING
           (''Tried to add EventListener that is already registered. ''
              @ ''This should not be possible and may be due to a library bug'')]"
    by (simp add: AE_LOG_def)
  from t[where p = nullptr and AE_DEBUG = True,
        THEN conjunct1]
  have c: "m_pListeners (AddListener True nullptr demo_system) = [Ptr 11, Ptr 12, Ptr 13]"
    by (simp add: AE_LOG_def r)
  from t[where p = "Ptr 14" and AE_DEBUG = False,
        THEN conjunct2, THEN conjunct2, THEN conjunct2, THEN conjunct2,
        THEN conjunct2, THEN conjunct2, THEN conjunct2, THEN conjunct2,
        THEN conjunct2, THEN conjunct2, THEN conjunct1, THEN mp, OF h(3)]
  have d: "m_pListeners (RemoveListener False (Ptr 14) demo_system) = [Ptr 11, Ptr 12, Ptr 13]"
    by (simp add: r)
  have "nullptr \<notin> set (m_pListeners demo_system) \<and> \<not> (False \<and> nullptr = nullptr)"
    using h(4) by simp
  from t[where p = nullptr and AE_DEBUG = False,
        THEN conjunct2, THEN conjunct2, THEN conjunct2, THEN conjunct2,
        THEN conjunct2, THEN conjunct2, THEN conjunct2, THEN conjunct2,
        THEN conjunct2, THEN conjunct1, THEN mp, OF this]
  have e: "m_pListeners (RemoveListener False nullptr demo_system) = [Ptr 11, Ptr 12, Ptr 13]"
      "observed (RemoveListener False nullptr demo_system)
       = observed demo_system @ [Log AE_WARNING
           (''Tried to remove EventListener from EventManager that was not registered. ''
              @ ''This should not be possible and may be due to a library bug'')]"
    by (simp_all add: AE_LOG_def r)
  have "Ptr 12 \<noteq> nullptr \<and> distinct (m_pListeners demo_system)" using h(2) by simp
  from t[where p = "Ptr 12" and AE_DEBUG = True,
        THEN conjunct2, THEN conjunct2, THEN conjunct2, THEN conjunct2,
        THEN conjunct2, THEN conjunct2, THEN conjunct2, THEN conjunct2,
        THEN conjunct2, THEN conjunct2, THEN conjunct2, THEN mp, OF this]
  have f0: "set (m_pListeners (RemoveListener True (Ptr 12) demo_system))
              = set (m_pListeners demo_system) - {Ptr 12}" .
  have f: "Ptr 12 \<notin> set (m_pListeners (RemoveListener True (Ptr 12) demo_system))"
    "Ptr 13 \<in> set (m_pListeners (RemoveListener True (Ptr 12) demo_system))"
    unfolding f0 r by simp_all
  from t[where p = "Ptr 14" and AE_DEBUG = True,
        THEN conjunct2, THEN conjunct2, THEN conjunct2, THEN conjunct2,
        THEN conjunct2, THEN conjunct2, THEN conjunct2, THEN conjunct1, THEN mp, OF h(2)]
  have g: "distinct (m_pListeners (AddListener True (Ptr 14) demo_system))" by (rule conjunct1)
  show ?thesis
    by (intro conjI) (rule h a1 a2 b c d e f g)+
qed

text \<open>
  C6 as stated, for every build, does not hold: both null checks of the registry stand
  inside \<^verbatim>\<open>#ifdef AE_DEBUG\<close>. In a build without validation AddListener on a
  null pointer registers it and logs nothing, and the next dispatch dereferences it.
\<close>

theorem AddListener_null_unvalidated:
  "m_pListeners (AddListener False nullptr (event_system_init :: unit event_system)) = [nullptr]
   \<and> observed (AddListener False nullptr (event_system_init :: unit event_system)) = []
   \<and> DispatchEvent (AddListener False nullptr (event_system_init :: unit event_system))
        key_event () = Inl NullDereference"
  by (simp add: AddListener_def event_system_init_def unordered_set_insert_def DispatchEvent_def)












end
